theory Spec2Isabelle
  imports Complex_Main
begin

section \<open>Setup: the options of a parser, splitter and converter\<close>

text \<open>
  \<^verbatim>\<open>setup<Options...>\<close> (setup.hpp) turns the option pack into the matchers and flags
  the other classes read. A matcher is the list of its characters; the disabled matcher
  \<^verbatim>\<open>matcher<'\0'>\<close> is the empty list (a matcher with no character does not compile).
  The quote matcher takes one character, and \<^verbatim>\<open>quote<'\0'>\<close> is the disabled matcher, as
  in the source. The fields \<open>trim_left\<close> and \<open>trim_right\<close> are the resolved ones:
  \<^verbatim>\<open>trim<Cs...>\<close> sets both.
\<close>

record ss_setup =
  quote :: char
  escape :: "char list"
  trim_left :: "char list"
  trim_right :: "char list"
  multiline_enabled :: bool
  multiline_size :: nat
  string_error :: bool
  ignore_header :: bool
  ignore_empty :: bool
  throw_on_error :: bool

text \<open>\<^verbatim>\<open>matcher<Cs...>::match(c)\<close>: is \<open>c\<close> one of the characters.\<close>

definition match :: "char list \<Rightarrow> char \<Rightarrow> bool" where
  "match cs c = (c \<in> set cs)"

definition quote_enabled :: "ss_setup \<Rightarrow> bool" where
  "quote_enabled cfg = (quote cfg \<noteq> CHR 0x00)"

definition quote_match :: "ss_setup \<Rightarrow> char \<Rightarrow> bool" where
  "quote_match cfg c = (c = quote cfg)"

definition escape_enabled :: "ss_setup \<Rightarrow> bool" where
  "escape_enabled cfg = (escape cfg \<noteq> [])"

definition trim_left_enabled :: "ss_setup \<Rightarrow> bool" where
  "trim_left_enabled cfg = (trim_left cfg \<noteq> [])"

definition trim_right_enabled :: "ss_setup \<Rightarrow> bool" where
  "trim_right_enabled cfg = (trim_right cfg \<noteq> [])"

definition matches_intersect :: "char list \<Rightarrow> char list \<Rightarrow> bool" where
  "matches_intersect first second = (\<exists>c \<in> set first. c \<noteq> CHR 0x00 \<and> c \<in> set second)"

text \<open>
  The static assertions of \<^verbatim>\<open>matcher\<close> and \<^verbatim>\<open>setup\<close>: an option pack that breaks one
  of them does not compile, so every parser that exists satisfies \<open>setup_ok\<close>.
\<close>

definition setup_ok :: "ss_setup \<Rightarrow> bool" where
  "setup_ok cfg =
    (CHR 0x00 \<notin> set (escape cfg) \<and>
     CHR 0x00 \<notin> set (trim_left cfg) \<and>
     CHR 0x00 \<notin> set (trim_right cfg) \<and>
     \<not> matches_intersect (escape cfg) [quote cfg] \<and>
     \<not> matches_intersect [quote cfg] (trim_left cfg) \<and>
     \<not> matches_intersect [quote cfg] (trim_right cfg) \<and>
     \<not> matches_intersect (escape cfg) (trim_left cfg) \<and>
     \<not> matches_intersect (escape cfg) (trim_right cfg) \<and>
     (\<not> multiline_enabled cfg \<or> quote_enabled cfg \<or> escape_enabled cfg) \<and>
     \<not> (throw_on_error cfg \<and> string_error cfg))"

definition default_setup :: ss_setup where
  "default_setup =
    \<lparr>quote = CHR 0x00, escape = [], trim_left = [], trim_right = [],
     multiline_enabled = False, multiline_size = 0, string_error = False,
     ignore_header = False, ignore_empty = False, throw_on_error = False\<rparr>"

section \<open>Record buffers\<close>

text \<open>
  A record buffer is a C string: the bytes of the list, then the terminator. Reading at
  the length of the list (or, in the model, beyond it) yields the terminator.
\<close>

definition peek :: "char list \<Rightarrow> nat \<Rightarrow> char" where
  "peek buf p = (if p < length buf then buf ! p else CHR 0x00)"

section \<open>Line reader: the trailing-escape test\<close>

text \<open>
  \<^verbatim>\<open>parser::reader::escaped_eol\<close> (parser.hpp). The cursor \<open>cur\<close> is the offset of the
  pointer from \<^verbatim>\<open>next_line_buffer_\<close>; it is an integer because the loop leaves it one
  before the buffer when every byte is an escape. The source forms
  \<^verbatim>\<open>next_line_buffer_ - cur + size\<close> in \<^verbatim>\<open>size_t\<close>; the value is the number of escape
  bytes passed plus one, and a wrap-around modulo a power of two would keep its parity.
\<close>

function escaped_eol_loop :: "char list \<Rightarrow> char list \<Rightarrow> int \<Rightarrow> int" where
  "escaped_eol_loop esc buf cur =
    (if cur \<ge> 0 \<and> match esc (peek buf (nat cur))
     then escaped_eol_loop esc buf (cur - 1)
     else cur)"
  by pat_completeness auto
termination
  by (relation "measure (\<lambda>(esc, buf, cur). nat (cur + 1))") auto

definition escaped_eol :: "ss_setup \<Rightarrow> char list \<Rightarrow> nat \<Rightarrow> bool" where
  "escaped_eol cfg buf sz =
    ((0 - escaped_eol_loop (escape cfg) buf (int sz - 1) + int sz) mod 2 = 0)"

section \<open>Parser facade: validity\<close>

text \<open>
  \<^verbatim>\<open>error_type\<close> is \<^verbatim>\<open>std::string\<close> under \<^verbatim>\<open>string_error\<close> and \<^verbatim>\<open>bool\<close> otherwise. The
  model keeps both representations side by side; each function reads and writes the one
  its setup selects, as the \<^verbatim>\<open>if constexpr\<close> branches of the source do.
\<close>

record error_type =
  flag :: bool
  msg :: string

definition no_error :: error_type where
  "no_error = \<lparr>flag = False, msg = []\<rparr>"

text \<open>\<^verbatim>\<open>parser::valid\<close> (parser.hpp), on the parser's own \<^verbatim>\<open>error_\<close>.\<close>

definition parser_valid :: "ss_setup \<Rightarrow> error_type \<Rightarrow> bool" where
  "parser_valid cfg error =
    (if string_error cfg then msg error = []
     else if throw_on_error cfg then True
     else \<not> flag error)"

section \<open>Splitter\<close>

text \<open>
  \<^verbatim>\<open>class splitter\<close> (the splitter of setup.hpp). A pointer into the record buffer is the
  offset of the byte in \<open>buf_m\<close>, the memory the pointers of the splitter point into; the
  in-place shift writes to it, so it is part of the state. \<open>line_m\<close> is the address of
  the first byte of the line. The members keep their names, with \<open>_m\<close> for the trailing
  underscore of the source. A field range is the pair of its begin and end pointers.
\<close>

type_synonym string_range = "nat \<times> nat"
type_synonym split_data = "string_range list"

record splitter =
  error_m :: error_type
  unterminated_quote_m :: bool
  done_m :: bool
  resplitting_m :: bool
  escaped_m :: nat
  split_data_m :: split_data
  begin_m :: nat
  curr_m :: nat
  end_m :: nat
  line_m :: nat
  buf_m :: "char list"

definition new_splitter :: splitter where
  "new_splitter =
    \<lparr>error_m = no_error, unterminated_quote_m = False, done_m = True,
     resplitting_m = False, escaped_m = 0, split_data_m = [],
     begin_m = 0, curr_m = 0, end_m = 0, line_m = 0, buf_m = []\<rparr>"

definition is_const_line :: "ss_setup \<Rightarrow> bool" where
  "is_const_line cfg = (\<not> quote_enabled cfg \<and> \<not> escape_enabled cfg)"

definition splitter_valid :: "ss_setup \<Rightarrow> splitter \<Rightarrow> bool" where
  "splitter_valid cfg sp =
    (if string_error cfg then msg (error_m sp) = [] else \<not> flag (error_m sp))"

subsection \<open>Errors\<close>

text \<open>
  \<^verbatim>\<open>std::to_string\<close> on a \<^verbatim>\<open>size_t\<close>: the decimal digits, most significant first.
\<close>

definition digit_char :: "nat \<Rightarrow> char" where
  "digit_char n = ''0123456789'' ! n"

function to_string :: "nat \<Rightarrow> string" where
  "to_string n = (if n < 10 then [digit_char n] else to_string (n div 10) @ [digit_char (n mod 10)])"
  by pat_completeness auto
termination
  by (relation "measure (\<lambda>n. n)") auto

declare to_string.simps [simp del]

definition set_error :: "ss_setup \<Rightarrow> string \<Rightarrow> error_type \<Rightarrow> error_type" where
  "set_error cfg m e = (if string_error cfg then e\<lparr>msg := m\<rparr> else e\<lparr>flag := True\<rparr>)"

definition clear :: "ss_setup \<Rightarrow> error_type \<Rightarrow> error_type" where
  "clear cfg e = (if string_error cfg then e\<lparr>msg := []\<rparr> else e\<lparr>flag := False\<rparr>)"

definition splitter_clear_error :: "ss_setup \<Rightarrow> splitter \<Rightarrow> splitter" where
  "splitter_clear_error cfg sp =
    sp\<lparr>error_m := clear cfg (error_m sp), unterminated_quote_m := False\<rparr>"

definition set_error_empty_delimiter :: "ss_setup \<Rightarrow> splitter \<Rightarrow> splitter" where
  "set_error_empty_delimiter cfg sp =
    sp\<lparr>error_m := set_error cfg ''empt  delimiter'' (error_m sp)\<rparr>"

definition set_error_mismatched_quote :: "ss_setup \<Rightarrow> nat \<Rightarrow> splitter \<Rightarrow> splitter" where
  "set_error_mismatched_quote cfg n sp =
    sp\<lparr>error_m := set_error cfg (''mismatched quote at position: '' @ to_string n) (error_m sp)\<rparr>"

definition set_error_unterminated_escape :: "ss_setup \<Rightarrow> splitter \<Rightarrow> splitter" where
  "set_error_unterminated_escape cfg sp =
    sp\<lparr>error_m := set_error cfg ''unterminated escape at the end of the line'' (error_m sp)\<rparr>"

definition set_error_unterminated_quote :: "ss_setup \<Rightarrow> splitter \<Rightarrow> splitter" where
  "set_error_unterminated_quote cfg sp =
    sp\<lparr>unterminated_quote_m := True,
       error_m := set_error cfg ''unterminated quote'' (error_m sp)\<rparr>"

definition set_error_invalid_resplit :: "ss_setup \<Rightarrow> splitter \<Rightarrow> splitter" where
  "set_error_invalid_resplit cfg sp =
    sp\<lparr>unterminated_quote_m := False,
       error_m := set_error cfg
         ''invalid resplit, new line must be longerthan the end of the last slice'' (error_m sp)\<rparr>"

subsection \<open>Matching\<close>

text \<open>
  \<^verbatim>\<open>strncmp(curr, delim.c_str(), delim.size()) == 0\<close>: the bytes are compared one by
  one, and the comparison stops as equal at a terminator the two strings share.
\<close>

fun strncmp_eq :: "char list \<Rightarrow> nat \<Rightarrow> string \<Rightarrow> bool" where
  "strncmp_eq mem cur [] = True"
| "strncmp_eq mem cur (d # ds) =
    (peek mem cur = d \<and> (d = CHR 0x00 \<or> strncmp_eq mem (Suc cur) ds))"

text \<open>
  The two overloads of \<^verbatim>\<open>match\<close>: \<^verbatim>\<open>split_impl_select_delim\<close> passes a delimiter of
  one character as a \<^verbatim>\<open>char\<close> and a longer one as a string.
\<close>

definition match_delim :: "char list \<Rightarrow> nat \<Rightarrow> string \<Rightarrow> bool" where
  "match_delim mem cur delim =
    (if length delim = 1 then peek mem cur = hd delim else strncmp_eq mem cur delim)"

definition delimiter_size :: "string \<Rightarrow> nat" where
  "delimiter_size delim = length delim"

text \<open>
  The loop \<^verbatim>\<open>while (M::match(*curr)) ++curr\<close> of the two trim functions. No matcher
  holds the terminator (a static assertion), so the loop of the source stops at the end
  of the string at the latest; the model says so in the guard.
\<close>

function trim_loop :: "char list \<Rightarrow> char list \<Rightarrow> nat \<Rightarrow> nat" where
  "trim_loop m mem cur =
    (if cur < length mem \<and> match m (peek mem cur) then trim_loop m mem (Suc cur) else cur)"
  by pat_completeness auto
termination
  by (relation "measure (\<lambda>(m, mem, cur). length mem - cur)") auto

declare trim_loop.simps [simp del]

definition trim_left_if_enabled :: "ss_setup \<Rightarrow> char list \<Rightarrow> nat \<Rightarrow> nat" where
  "trim_left_if_enabled cfg mem cur =
    (if trim_left_enabled cfg then trim_loop (trim_left cfg) mem cur else cur)"

definition trim_right_if_enabled :: "ss_setup \<Rightarrow> char list \<Rightarrow> nat \<Rightarrow> nat" where
  "trim_right_if_enabled cfg mem cur =
    (if trim_right_enabled cfg then trim_loop (trim_right cfg) mem cur else cur)"

subsection \<open>Shifting\<close>

text \<open>
  \<^verbatim>\<open>std::copy_n(src, n, dst)\<close> inside one buffer, byte by byte from the first. The
  destination is never behind the source here.
\<close>

fun copy_n :: "char list \<Rightarrow> nat \<Rightarrow> nat \<Rightarrow> nat \<Rightarrow> char list" where
  "copy_n mem src 0 dst = mem"
| "copy_n mem src (Suc n) dst = copy_n (mem[dst := peek mem src]) (Suc src) n (Suc dst)"

text \<open>
  The count \<^verbatim>\<open>end_ - curr_ - escaped_\<close> is not negative: \<open>curr_m + escaped_m \<le> end_m\<close>
  holds wherever the splitter shifts (see \<open>shift_and_jump_escape\<close>, which sets
  \<open>curr_m\<close> to \<open>end_m - escaped_m\<close> and then advances \<open>escaped_m\<close> and \<open>end_m\<close> together).
\<close>

definition shift_and_set_current :: "ss_setup \<Rightarrow> splitter \<Rightarrow> splitter" where
  "shift_and_set_current cfg sp =
    (if \<not> is_const_line cfg \<and> escaped_m sp > 0
     then sp\<lparr>buf_m := copy_n (buf_m sp) (curr_m sp + escaped_m sp)
                 (end_m sp - curr_m sp - escaped_m sp) (curr_m sp),
             curr_m := end_m sp - escaped_m sp\<rparr>
     else sp\<lparr>curr_m := end_m sp\<rparr>)"

definition shift_and_push :: "ss_setup \<Rightarrow> splitter \<Rightarrow> splitter" where
  "shift_and_push cfg sp =
    (let sp1 = shift_and_set_current cfg sp
     in sp1\<lparr>split_data_m := split_data_m sp1 @ [(begin_m sp1, curr_m sp1)]\<rparr>)"

definition shift_push_and_start_next :: "ss_setup \<Rightarrow> nat \<Rightarrow> splitter \<Rightarrow> splitter" where
  "shift_push_and_start_next cfg n sp =
    (let sp1 = shift_and_push cfg sp in sp1\<lparr>begin_m := end_m sp1 + n\<rparr>)"

definition shift_and_jump_escape :: "ss_setup \<Rightarrow> splitter \<Rightarrow> splitter" where
  "shift_and_jump_escape cfg sp =
    (let sp1 = shift_and_set_current cfg sp;
         sp2 = (if \<not> is_const_line cfg then sp1\<lparr>escaped_m := escaped_m sp1 + 1\<rparr> else sp1)
     in sp2\<lparr>end_m := end_m sp2 + 1\<rparr>)"

definition shift_if_escaped :: "ss_setup \<Rightarrow> splitter \<Rightarrow> nat \<Rightarrow> splitter" where
  "shift_if_escaped cfg sp cur =
    (if escape_enabled cfg \<and> match (escape cfg) (peek (buf_m sp) cur)
     then if peek (buf_m sp) (cur + 1) = CHR 0x00
          then (set_error_unterminated_escape cfg sp)\<lparr>done_m := True\<rparr>
          else shift_and_jump_escape cfg sp
     else sp)"

text \<open>
  \<^verbatim>\<open>match_delimiter\<close> returns the width and whether a delimiter was found; the model
  returns the splitter as well, which \<^verbatim>\<open>shift_if_escaped\<close> may have changed.
\<close>

definition match_delimiter ::
  "ss_setup \<Rightarrow> splitter \<Rightarrow> nat \<Rightarrow> string \<Rightarrow> nat \<times> bool \<times> splitter" where
  "match_delimiter cfg sp begin delim =
    (let end = trim_right_if_enabled cfg (buf_m sp) begin
     in if peek (buf_m sp) end = CHR 0x00 then (0, False, sp)
        else if \<not> match_delim (buf_m sp) end delim
        then (1 + end - begin, False, shift_if_escaped cfg sp end)
        else (trim_left_if_enabled cfg (buf_m sp) (end + delimiter_size delim) - begin, True, sp))"

subsection \<open>Facts for the termination of the reading loops\<close>

lemma trim_loop_ge: "cur \<le> trim_loop m mem cur"
proof (induction m mem cur rule: trim_loop.induct)
  case (1 m mem cur)
  then show ?case
    by (subst trim_loop.simps) (auto simp: Suc_leD)
qed

lemma trim_left_if_enabled_ge: "cur \<le> trim_left_if_enabled cfg mem cur"
  by (simp add: trim_left_if_enabled_def trim_loop_ge)

lemma trim_right_if_enabled_ge: "cur \<le> trim_right_if_enabled cfg mem cur"
  by (simp add: trim_right_if_enabled_def trim_loop_ge)

lemma peek_not_nul_less: "peek mem p \<noteq> CHR 0x00 \<Longrightarrow> p < length mem"
  by (simp add: peek_def split: if_splits)

lemma length_copy_n: "length (copy_n mem src n dst) = length mem"
  by (induction n arbitrary: mem src dst) simp_all

lemma shift_and_set_current_keeps:
  "length (buf_m (shift_and_set_current cfg sp)) = length (buf_m sp)"
  "end_m (shift_and_set_current cfg sp) = end_m sp"
  "begin_m (shift_and_set_current cfg sp) = begin_m sp"
  "done_m (shift_and_set_current cfg sp) = done_m sp"
  "resplitting_m (shift_and_set_current cfg sp) = resplitting_m sp"
  by (simp_all add: shift_and_set_current_def length_copy_n)

lemma shift_and_jump_escape_keeps:
  "length (buf_m (shift_and_jump_escape cfg sp)) = length (buf_m sp)"
  "end_m (shift_and_jump_escape cfg sp) = end_m sp + 1"
  "begin_m (shift_and_jump_escape cfg sp) = begin_m sp"
  "done_m (shift_and_jump_escape cfg sp) = done_m sp"
  "resplitting_m (shift_and_jump_escape cfg sp) = resplitting_m sp"
  by (simp_all add: shift_and_jump_escape_def Let_def shift_and_set_current_keeps)

lemma shift_and_push_keeps:
  "length (buf_m (shift_and_push cfg sp)) = length (buf_m sp)"
  "end_m (shift_and_push cfg sp) = end_m sp"
  "begin_m (shift_and_push cfg sp) = begin_m sp"
  "done_m (shift_and_push cfg sp) = done_m sp"
  "resplitting_m (shift_and_push cfg sp) = resplitting_m sp"
  by (simp_all add: shift_and_push_def Let_def shift_and_set_current_keeps)

lemma shift_push_and_start_next_keeps:
  "length (buf_m (shift_push_and_start_next cfg n sp)) = length (buf_m sp)"
  "end_m (shift_push_and_start_next cfg n sp) = end_m sp"
  "begin_m (shift_push_and_start_next cfg n sp) = end_m sp + n"
  "done_m (shift_push_and_start_next cfg n sp) = done_m sp"
  "resplitting_m (shift_push_and_start_next cfg n sp) = resplitting_m sp"
  by (simp_all add: shift_push_and_start_next_def Let_def shift_and_push_keeps)

lemma shift_if_escaped_keeps:
  "length (buf_m (shift_if_escaped cfg sp cur)) = length (buf_m sp)"
  "end_m sp \<le> end_m (shift_if_escaped cfg sp cur)"
  "begin_m (shift_if_escaped cfg sp cur) = begin_m sp"
  "resplitting_m (shift_if_escaped cfg sp cur) = resplitting_m sp"
  by (simp_all add: shift_if_escaped_def shift_and_jump_escape_keeps
      set_error_unterminated_escape_def)

lemma match_delimiter_not_valid:
  assumes "match_delimiter cfg sp b delim = (w, False, sp1)" and "w \<noteq> 0"
  shows "b < length (buf_m sp)" and "length (buf_m sp1) = length (buf_m sp)"
    and "end_m sp \<le> end_m sp1" and "begin_m sp1 = begin_m sp"
    and "resplitting_m sp1 = resplitting_m sp"
proof -
  let ?e = "trim_right_if_enabled cfg (buf_m sp) b"
  from assms have nn: "peek (buf_m sp) ?e \<noteq> CHR 0x00"
    by (auto simp: match_delimiter_def Let_def split: if_splits)
  with assms have sp1: "sp1 = shift_if_escaped cfg sp ?e"
    by (auto simp: match_delimiter_def Let_def split: if_splits)
  from nn have "?e < length (buf_m sp)" by (rule peek_not_nul_less)
  with trim_right_if_enabled_ge [of b cfg "buf_m sp"] show "b < length (buf_m sp)" by simp
  from sp1 show "length (buf_m sp1) = length (buf_m sp)" "end_m sp \<le> end_m sp1"
    "begin_m sp1 = begin_m sp" "resplitting_m sp1 = resplitting_m sp"
    by (simp_all add: shift_if_escaped_keeps)
qed

lemma match_delimiter_valid:
  assumes "match_delimiter cfg sp b delim = (w, True, sp1)"
  shows "sp1 = sp" and "b < length (buf_m sp)" and "length delim \<le> w"
proof -
  let ?e = "trim_right_if_enabled cfg (buf_m sp) b"
  from assms have nn: "peek (buf_m sp) ?e \<noteq> CHR 0x00"
    by (auto simp: match_delimiter_def Let_def split: if_splits)
  from assms show "sp1 = sp"
    by (auto simp: match_delimiter_def Let_def split: if_splits)
  from nn have "?e < length (buf_m sp)" by (rule peek_not_nul_less)
  with trim_right_if_enabled_ge [of b cfg "buf_m sp"] show "b < length (buf_m sp)" by simp
  from assms have w: "w = trim_left_if_enabled cfg (buf_m sp) (?e + delimiter_size delim) - b"
    by (auto simp: match_delimiter_def Let_def split: if_splits)
  have "?e + length delim \<le> trim_left_if_enabled cfg (buf_m sp) (?e + delimiter_size delim)"
    using trim_left_if_enabled_ge [of "?e + delimiter_size delim" cfg "buf_m sp"]
    by (simp add: delimiter_size_def)
  with w trim_right_if_enabled_ge [of b cfg "buf_m sp"] show "length delim \<le> w" by simp
qed

subsection \<open>Reading\<close>

text \<open>\<^verbatim>\<open>read_normal\<close>: the loop \<^verbatim>\<open>while (true)\<close> over an unquoted field.\<close>

function read_normal :: "ss_setup \<Rightarrow> string \<Rightarrow> splitter \<Rightarrow> splitter" where
  "read_normal cfg delim sp =
    (case match_delimiter cfg sp (end_m sp) delim of
      (width, valid, sp1) \<Rightarrow>
        if \<not> valid then
          if width = 0 then (shift_and_push cfg sp1)\<lparr>done_m := True\<rparr>
          else read_normal cfg delim (sp1\<lparr>end_m := end_m sp1 + width\<rparr>)
        else shift_push_and_start_next cfg width sp1)"
  by pat_completeness auto
termination
proof (relation "measure (\<lambda>(cfg, delim, sp). length (buf_m sp) - end_m sp)")
  show "wf (measure (\<lambda>(cfg, delim, sp). length (buf_m sp) - end_m sp))" by simp
next
  fix cfg delim sp width y valid sp1
  assume "(width, y) = match_delimiter cfg sp (end_m sp) delim"
    and "(valid, sp1) = y" and "\<not> valid" and "width \<noteq> 0"
  then have md: "match_delimiter cfg sp (end_m sp) delim = (width, False, sp1)"
    by (metis (full_types))
  from match_delimiter_not_valid [OF md \<open>width \<noteq> 0\<close>]
  have "end_m sp < length (buf_m sp)" and "length (buf_m sp1) = length (buf_m sp)"
    and "end_m sp \<le> end_m sp1" by simp_all
  with \<open>width \<noteq> 0\<close>
  show "((cfg, delim, sp1\<lparr>end_m := end_m sp1 + width\<rparr>), cfg, delim, sp)
      \<in> measure (\<lambda>(cfg, delim, sp). length (buf_m sp) - end_m sp)"
    by simp
qed

declare read_normal.simps [simp del]

text \<open>
  \<^verbatim>\<open>read_quoted\<close>: the loop over a quoted field, from the byte after the opening quote.
\<close>

function read_quoted :: "ss_setup \<Rightarrow> string \<Rightarrow> splitter \<Rightarrow> splitter" where
  "read_quoted cfg delim sp =
    (if quote_enabled cfg then
       if \<not> quote_match cfg (peek (buf_m sp) (end_m sp)) then
         if escape_enabled cfg \<and> match (escape cfg) (peek (buf_m sp) (end_m sp)) then
           if peek (buf_m sp) (end_m sp + 1) = CHR 0x00
           then (set_error_unterminated_escape cfg sp)\<lparr>done_m := True\<rparr>
           else read_quoted cfg delim
                  ((shift_and_jump_escape cfg sp)\<lparr>end_m := end_m (shift_and_jump_escape cfg sp) + 1\<rparr>)
         else if peek (buf_m sp) (end_m sp) = CHR 0x00 then
           (let sp1 = set_error_unterminated_quote cfg (shift_and_set_current cfg sp)
            in sp1\<lparr>split_data_m := split_data_m sp1 @ [(line_m sp1, begin_m sp1)],
                   done_m := True\<rparr>)
         else read_quoted cfg delim (sp\<lparr>end_m := end_m sp + 1\<rparr>)
       else
         (case match_delimiter cfg sp (end_m sp + 1) delim of
           (width, valid, sp1) \<Rightarrow>
             if valid then shift_push_and_start_next cfg (width + 1) sp1
             else if quote_match cfg (peek (buf_m sp1) (end_m sp1 + 1)) then
               read_quoted cfg delim
                 ((shift_and_jump_escape cfg sp1)\<lparr>end_m := end_m (shift_and_jump_escape cfg sp1) + 1\<rparr>)
             else if width = 0 then (shift_and_push cfg sp1)\<lparr>done_m := True\<rparr>
             else
               (let sp2 = set_error_mismatched_quote cfg (end_m sp1 - line_m sp1) sp1
                in sp2\<lparr>split_data_m := split_data_m sp2 @ [(line_m sp2, begin_m sp2)],
                       done_m := True\<rparr>))
     else sp)"
  by pat_completeness auto
termination
proof (relation "measure (\<lambda>(cfg, delim, sp). length (buf_m sp) - end_m sp)")
  show "wf (measure (\<lambda>(cfg, delim, sp). length (buf_m sp) - end_m sp))" by simp
next
  fix cfg :: ss_setup and delim :: string and sp :: splitter
  assume "peek (buf_m sp) (end_m sp + 1) \<noteq> CHR 0x00"
  then have "end_m sp + 1 < length (buf_m sp)" by (rule peek_not_nul_less)
  then show "((cfg, delim, (shift_and_jump_escape cfg sp)
        \<lparr>end_m := end_m (shift_and_jump_escape cfg sp) + 1\<rparr>), cfg, delim, sp)
      \<in> measure (\<lambda>(cfg, delim, sp). length (buf_m sp) - end_m sp)"
    by (simp add: shift_and_jump_escape_keeps)
next
  fix cfg :: ss_setup and delim :: string and sp :: splitter
  assume "peek (buf_m sp) (end_m sp) \<noteq> CHR 0x00"
  then have "end_m sp < length (buf_m sp)" by (rule peek_not_nul_less)
  then show "((cfg, delim, sp\<lparr>end_m := end_m sp + 1\<rparr>), cfg, delim, sp)
      \<in> measure (\<lambda>(cfg, delim, sp). length (buf_m sp) - end_m sp)"
    by simp
next
  fix cfg delim sp width y valid sp1
  assume en: "quote_enabled cfg" and q: "\<not> \<not> quote_match cfg (peek (buf_m sp) (end_m sp))"
    and "(width, y) = match_delimiter cfg sp (end_m sp + 1) delim"
    and "(valid, sp1) = y" and "\<not> valid"
  then have md: "match_delimiter cfg sp (end_m sp + 1) delim = (width, False, sp1)"
    by (metis (full_types))
  from en q have "peek (buf_m sp) (end_m sp) \<noteq> CHR 0x00"
    by (simp add: quote_enabled_def quote_match_def)
  then have lt: "end_m sp < length (buf_m sp)" by (rule peek_not_nul_less)
  from md have "length (buf_m sp1) = length (buf_m sp)" and "end_m sp \<le> end_m sp1"
    by (auto simp: match_delimiter_def Let_def shift_if_escaped_keeps split: if_splits)
  with lt show "((cfg, delim, (shift_and_jump_escape cfg sp1)
        \<lparr>end_m := end_m (shift_and_jump_escape cfg sp1) + 1\<rparr>), cfg, delim, sp)
      \<in> measure (\<lambda>(cfg, delim, sp). length (buf_m sp) - end_m sp)"
    by (simp add: shift_and_jump_escape_keeps)
qed

declare read_quoted.simps [simp del]

text \<open>\<^verbatim>\<open>read\<close>: one field, quoted or not.\<close>

definition read :: "ss_setup \<Rightarrow> string \<Rightarrow> splitter \<Rightarrow> splitter" where
  "read cfg delim sp0 =
    (let sp = sp0\<lparr>escaped_m := 0\<rparr>
     in if quote_enabled cfg \<and> multiline_enabled cfg \<and> resplitting_m sp then
          read_quoted cfg delim (sp\<lparr>resplitting_m := False, begin_m := begin_m sp + 1\<rparr>)
        else if quote_enabled cfg \<and> quote_match cfg (peek (buf_m sp) (begin_m sp)) then
          read_quoted cfg delim
            (sp\<lparr>begin_m := begin_m sp + 1, curr_m := begin_m sp + 1, end_m := begin_m sp + 1\<rparr>)
        else read_normal cfg delim (sp\<lparr>curr_m := begin_m sp, end_m := begin_m sp\<rparr>))"

subsection \<open>Facts for the termination of the splitting loop\<close>

lemma read_normal_facts:
  "length (buf_m (read_normal cfg delim sp)) = length (buf_m sp) \<and>
   resplitting_m (read_normal cfg delim sp) = resplitting_m sp \<and>
   (delim \<noteq> [] \<longrightarrow> \<not> done_m (read_normal cfg delim sp) \<longrightarrow>
      end_m sp < begin_m (read_normal cfg delim sp) \<and> end_m sp < length (buf_m sp))"
proof (induction cfg delim sp rule: read_normal.induct)
  case (1 cfg delim sp)
  obtain width valid sp1 where md: "match_delimiter cfg sp (end_m sp) delim = (width, valid, sp1)"
    by (cases "match_delimiter cfg sp (end_m sp) delim") auto
  show ?case
  proof (cases valid)
    case True
    with md have r: "read_normal cfg delim sp = shift_push_and_start_next cfg width sp1"
      by (subst read_normal.simps) simp
    from md True have v: "sp1 = sp" "end_m sp < length (buf_m sp)" "length delim \<le> width"
      using match_delimiter_valid [of cfg sp "end_m sp" delim width sp1] by simp_all
    from v have "delim \<noteq> [] \<longrightarrow> 0 < width" by (cases delim) simp_all
    with v show ?thesis
      by (simp add: r shift_push_and_start_next_keeps)
  next
    case nv: False
    show ?thesis
    proof (cases "width = 0")
      case True
      with md nv have r: "read_normal cfg delim sp = (shift_and_push cfg sp1)\<lparr>done_m := True\<rparr>"
        by (subst read_normal.simps) simp
      from md nv True have "sp1 = sp"
        using trim_right_if_enabled_ge [of "end_m sp" cfg "buf_m sp"]
        by (auto simp: match_delimiter_def Let_def split: if_splits)
      then show ?thesis by (simp add: r shift_and_push_keeps)
    next
      case False
      with md nv have r: "read_normal cfg delim sp =
          read_normal cfg delim (sp1\<lparr>end_m := end_m sp1 + width\<rparr>)"
        by (subst read_normal.simps) simp
      from md nv have md': "match_delimiter cfg sp (end_m sp) delim = (width, False, sp1)" by simp
      note f = match_delimiter_not_valid [OF md' False]
      from "1.IH" [OF md [symmetric] refl nv False] f False
      show ?thesis by (auto simp: r)
    qed
  qed
qed

lemma read_quoted_facts:
  "length (buf_m (read_quoted cfg delim sp)) = length (buf_m sp) \<and>
   resplitting_m (read_quoted cfg delim sp) = resplitting_m sp \<and>
   (quote_enabled cfg \<longrightarrow> \<not> done_m (read_quoted cfg delim sp) \<longrightarrow>
      end_m sp < begin_m (read_quoted cfg delim sp) \<and> end_m sp < length (buf_m sp))"
proof (induction cfg delim sp rule: read_quoted.induct)
  case (1 cfg delim sp)
  show ?case
  proof (cases "quote_enabled cfg")
    case False
    then show ?thesis by (subst (1 2) read_quoted.simps) simp
  next
    case en: True
    show ?thesis
    proof (cases "quote_match cfg (peek (buf_m sp) (end_m sp))")
      case nq: False
      show ?thesis
      proof (cases "escape_enabled cfg \<and> match (escape cfg) (peek (buf_m sp) (end_m sp))")
        case esc: True
        show ?thesis
        proof (cases "peek (buf_m sp) (end_m sp + 1) = CHR 0x00")
          case True
          with en nq esc have r: "read_quoted cfg delim sp =
              (set_error_unterminated_escape cfg sp)\<lparr>done_m := True\<rparr>"
            by (subst read_quoted.simps) auto
          show ?thesis by (simp add: r set_error_unterminated_escape_def)
        next
          case False
          with en nq esc have r: "read_quoted cfg delim sp = read_quoted cfg delim
              ((shift_and_jump_escape cfg sp)\<lparr>end_m := end_m (shift_and_jump_escape cfg sp) + 1\<rparr>)"
            by (subst read_quoted.simps) auto
          from False have "end_m sp + 1 < length (buf_m sp)" by (rule peek_not_nul_less)
          with "1.IH"(1) [OF en nq esc False]
          show ?thesis by (auto simp: r shift_and_jump_escape_keeps)
        qed
      next
        case ne: False
        show ?thesis
        proof (cases "peek (buf_m sp) (end_m sp) = CHR 0x00")
          case True
          with en nq ne have r: "read_quoted cfg delim sp =
              (let sp1 = set_error_unterminated_quote cfg (shift_and_set_current cfg sp)
               in sp1\<lparr>split_data_m := split_data_m sp1 @ [(line_m sp1, begin_m sp1)],
                      done_m := True\<rparr>)"
            by (subst read_quoted.simps) auto
          show ?thesis
            by (simp add: r Let_def set_error_unterminated_quote_def shift_and_set_current_keeps)
        next
          case False
          with en nq ne have r: "read_quoted cfg delim sp =
              read_quoted cfg delim (sp\<lparr>end_m := end_m sp + 1\<rparr>)"
            by (subst read_quoted.simps) auto
          from False have "end_m sp < length (buf_m sp)" by (rule peek_not_nul_less)
          with "1.IH"(2) [OF en nq ne False]
          show ?thesis by (auto simp: r)
        qed
      qed
    next
      case q: True
      with en have "peek (buf_m sp) (end_m sp) \<noteq> CHR 0x00"
        by (simp add: quote_enabled_def quote_match_def)
      then have lt: "end_m sp < length (buf_m sp)" by (rule peek_not_nul_less)
      obtain width valid sp1 where
        md: "match_delimiter cfg sp (end_m sp + 1) delim = (width, valid, sp1)"
        by (cases "match_delimiter cfg sp (end_m sp + 1) delim") auto
      then have k: "length (buf_m sp1) = length (buf_m sp)" "end_m sp \<le> end_m sp1"
        "resplitting_m sp1 = resplitting_m sp"
        by (auto simp: match_delimiter_def Let_def shift_if_escaped_keeps split: if_splits)
      show ?thesis
      proof (cases valid)
        case True
        with en q md have r: "read_quoted cfg delim sp =
            shift_push_and_start_next cfg (width + 1) sp1"
          by (subst read_quoted.simps) auto
        from md True have "sp1 = sp"
          using match_delimiter_valid(1) [of cfg sp "end_m sp + 1" delim width sp1] by simp
        with lt show ?thesis by (simp add: r shift_push_and_start_next_keeps)
      next
        case nv: False
        show ?thesis
        proof (cases "quote_match cfg (peek (buf_m sp1) (end_m sp1 + 1))")
          case True
          with en q md nv have r: "read_quoted cfg delim sp = read_quoted cfg delim
              ((shift_and_jump_escape cfg sp1)\<lparr>end_m := end_m (shift_and_jump_escape cfg sp1) + 1\<rparr>)"
            by (subst read_quoted.simps) auto
          from q have nnq: "\<not> \<not> quote_match cfg (peek (buf_m sp) (end_m sp))" by simp
          from "1.IH"(3) [OF en nnq md [symmetric] refl nv True] k lt
          show ?thesis by (auto simp: r shift_and_jump_escape_keeps)
        next
          case False
          with en q md nv have r: "read_quoted cfg delim sp =
              (if width = 0 then (shift_and_push cfg sp1)\<lparr>done_m := True\<rparr>
               else (let sp2 = set_error_mismatched_quote cfg (end_m sp1 - line_m sp1) sp1
                     in sp2\<lparr>split_data_m := split_data_m sp2 @ [(line_m sp2, begin_m sp2)],
                            done_m := True\<rparr>))"
            by (subst read_quoted.simps) auto
          from k show ?thesis
            by (simp add: r Let_def shift_and_push_keeps set_error_mismatched_quote_def)
        qed
      qed
    qed
  qed
qed

lemma read_facts:
  "length (buf_m (read cfg delim sp)) = length (buf_m sp)"
  "delim \<noteq> [] \<Longrightarrow> \<not> done_m (read cfg delim sp) \<Longrightarrow>
     \<not> (quote_enabled cfg \<and> multiline_enabled cfg \<and> resplitting_m (read cfg delim sp))
     \<and> ((quote_enabled cfg \<and> multiline_enabled cfg \<and> resplitting_m sp)
         \<or> (begin_m sp < begin_m (read cfg delim sp) \<and> begin_m sp < length (buf_m sp)))"
proof -
  show "length (buf_m (read cfg delim sp)) = length (buf_m sp)"
    by (simp add: read_def Let_def read_quoted_facts read_normal_facts)
  assume d: "delim \<noteq> []" and nd: "\<not> done_m (read cfg delim sp)"
  show "\<not> (quote_enabled cfg \<and> multiline_enabled cfg \<and> resplitting_m (read cfg delim sp))
     \<and> ((quote_enabled cfg \<and> multiline_enabled cfg \<and> resplitting_m sp)
         \<or> (begin_m sp < begin_m (read cfg delim sp) \<and> begin_m sp < length (buf_m sp)))"
  proof (cases "quote_enabled cfg \<and> multiline_enabled cfg \<and> resplitting_m sp")
    case True
    then show ?thesis
      by (simp add: read_def Let_def read_quoted_facts)
  next
    case nr: False
    show ?thesis
    proof (cases "quote_enabled cfg \<and> quote_match cfg (peek (buf_m sp) (begin_m sp))")
      case True
      let ?s = "sp\<lparr>escaped_m := 0, begin_m := begin_m sp + 1, curr_m := begin_m sp + 1,
        end_m := begin_m sp + 1\<rparr>"
      from nr True have r: "read cfg delim sp = read_quoted cfg delim ?s"
        by (auto simp: read_def Let_def)
      from read_quoted_facts [of cfg delim ?s] nd r True nr
      show ?thesis by auto
    next
      case False
      let ?s = "sp\<lparr>escaped_m := 0, curr_m := begin_m sp, end_m := begin_m sp\<rparr>"
      from nr False have r: "read cfg delim sp = read_normal cfg delim ?s"
        by (auto simp: read_def Let_def)
      from read_normal_facts [of cfg delim ?s] nd r d nr
      show ?thesis by auto
    qed
  qed
qed

subsection \<open>Splitting\<close>

text \<open>
  The loop \<^verbatim>\<open>for (done_ = false; !done_; read(delim))\<close> of \<^verbatim>\<open>split_impl\<close>. The source
  instantiates \<^verbatim>\<open>split_impl\<close> for a delimiter of one character and for a longer one only
  (the switch of \<^verbatim>\<open>split_impl_select_delim\<close>); with an empty delimiter the loop of the
  source would not advance, and the model's returns its argument.
\<close>

function split_loop :: "ss_setup \<Rightarrow> string \<Rightarrow> splitter \<Rightarrow> splitter" where
  "split_loop cfg delim sp =
    (if done_m sp \<or> delim = [] then sp else split_loop cfg delim (read cfg delim sp))"
  by pat_completeness auto
termination
proof (relation "measure (\<lambda>(cfg, delim, sp).
    if done_m sp then 0
    else (if quote_enabled cfg \<and> multiline_enabled cfg \<and> resplitting_m sp
          then length (buf_m sp) + 2 else 0) + Suc (length (buf_m sp) - begin_m sp))")
  show "wf (measure (\<lambda>(cfg, delim, sp).
    if done_m sp then 0
    else (if quote_enabled cfg \<and> multiline_enabled cfg \<and> resplitting_m sp
          then length (buf_m sp) + 2 else 0) + Suc (length (buf_m sp) - begin_m sp)))"
    by simp
next
  fix cfg :: ss_setup and delim :: string and sp :: splitter
  assume a: "\<not> (done_m sp \<or> delim = [])"
  show "((cfg, delim, read cfg delim sp), cfg, delim, sp) \<in> measure (\<lambda>(cfg, delim, sp).
    if done_m sp then 0
    else (if quote_enabled cfg \<and> multiline_enabled cfg \<and> resplitting_m sp
          then length (buf_m sp) + 2 else 0) + Suc (length (buf_m sp) - begin_m sp))"
  proof (cases "done_m (read cfg delim sp)")
    case True
    with a show ?thesis by simp
  next
    case False
    from a have d: "delim \<noteq> []" by simp
    from read_facts(2) [OF d False] read_facts(1) [of cfg delim sp] a False
    show ?thesis by auto
  qed
qed

declare split_loop.simps [simp del]

definition split_impl :: "ss_setup \<Rightarrow> string \<Rightarrow> splitter \<Rightarrow> splitter" where
  "split_impl cfg delim sp =
    split_loop cfg delim
      (sp\<lparr>begin_m := trim_left_if_enabled cfg (buf_m sp) (begin_m sp), done_m := False\<rparr>)"

definition split_impl_select_delim :: "ss_setup \<Rightarrow> string \<Rightarrow> splitter \<Rightarrow> splitter" where
  "split_impl_select_delim cfg delimiter sp =
    (let sp1 = splitter_clear_error cfg sp
     in if length delimiter = 0 then set_error_empty_delimiter cfg sp1
        else split_impl cfg delimiter sp1)"

text \<open>
  \<^verbatim>\<open>splitter::split\<close>. The line is passed as its address \<open>new_line\<close> and the memory \<open>mem\<close>
  it lies in; the result of the source, a reference to \<^verbatim>\<open>split_data_\<close>, is the member of
  the splitter returned.
\<close>

definition split :: "ss_setup \<Rightarrow> splitter \<Rightarrow> nat \<Rightarrow> char list \<Rightarrow> string \<Rightarrow> splitter" where
  "split cfg sp new_line mem delimiter =
    split_impl_select_delim cfg delimiter
      (sp\<lparr>split_data_m := [], line_m := new_line, begin_m := new_line, buf_m := mem\<rparr>)"

subsection \<open>Resplitting\<close>


text \<open>
  \<^verbatim>\<open>adjust_ranges\<close> rebases every range from the old line to the new one. The pointers
  of a range are not below \<open>old_line\<close>, so the sum is formed first.
\<close>

definition adjust_ranges :: "nat \<Rightarrow> splitter \<Rightarrow> splitter" where
  "adjust_ranges old_line sp =
    sp\<lparr>split_data_m :=
        map (\<lambda>(begin, end). (begin + line_m sp - old_line, end + line_m sp - old_line))
          (split_data_m sp)\<rparr>"

text \<open>
  \<^verbatim>\<open>resplit\<close>. \<open>new_size\<close> is an \<^verbatim>\<open>ssize_t\<close>; \<open>begin\<close> is a \<^verbatim>\<open>size_t\<close>, computed and
  compared modulo \<open>2 ^ 64\<close> as in the source.
\<close>

definition size_t_of :: "int \<Rightarrow> nat" where
  "size_t_of i = nat (i mod 2 ^ 64)"

definition resplit ::
  "ss_setup \<Rightarrow> splitter \<Rightarrow> nat \<Rightarrow> char list \<Rightarrow> int \<Rightarrow> string \<Rightarrow> splitter" where
  "resplit cfg sp new_line mem new_size delimiter =
    (if \<not> quote_enabled cfg \<or> \<not> multiline_enabled cfg \<or> split_data_m sp = [] \<or>
        \<not> unterminated_quote_m sp
     then set_error_invalid_resplit cfg sp
     else
       (let (old_line, old_begin) = last (split_data_m sp);
            begin = size_t_of (int old_begin - int old_line - 1)
        in if new_size \<noteq> - 1 \<and> size_t_of new_size < begin
           then set_error_invalid_resplit cfg sp
           else
             (let sp1 = sp\<lparr>split_data_m := butlast (split_data_m sp)\<rparr>;
                  sp2 = adjust_ranges old_line (sp1\<lparr>line_m := new_line, buf_m := mem\<rparr>);
                  sp3 = sp2\<lparr>begin_m := line_m sp2 + begin\<rparr>;
                  sp4 = sp3\<lparr>end_m := line_m sp3 + end_m sp3 - old_line - escaped_m sp3\<rparr>;
                  sp5 = sp4\<lparr>curr_m := end_m sp4, resplitting_m := True\<rparr>
              in split_impl_select_delim cfg delimiter sp5)))"

text \<open>
  For the statements below: the state \<^verbatim>\<open>resplit\<close> resumes from when it goes on, and the
  offset \<^verbatim>\<open>begin\<close> it compares the new size with, which is the offset of the opening
  quote of the suspended field (the placeholder range pushed at the suspension ends one
  byte after it).
\<close>

definition resume_state :: "splitter \<Rightarrow> nat \<Rightarrow> char list \<Rightarrow> splitter" where
  "resume_state sp new_line mem =
    (let (old_line, old_begin) = last (split_data_m sp);
         begin = size_t_of (int old_begin - int old_line - 1);
         sp1 = sp\<lparr>split_data_m := butlast (split_data_m sp)\<rparr>;
         sp2 = adjust_ranges old_line (sp1\<lparr>line_m := new_line, buf_m := mem\<rparr>);
         sp3 = sp2\<lparr>begin_m := line_m sp2 + begin\<rparr>;
         sp4 = sp3\<lparr>end_m := line_m sp3 + end_m sp3 - old_line - escaped_m sp3\<rparr>
     in sp4\<lparr>curr_m := end_m sp4, resplitting_m := True\<rparr>)"

definition opening_quote_offset :: "splitter \<Rightarrow> nat" where
  "opening_quote_offset sp =
    size_t_of (int (snd (last (split_data_m sp))) - int (fst (last (split_data_m sp))) - 1)"

section \<open>Extraction\<close>

text \<open>
  The types a parse position can name, and the values they hold. \<open>TIntegral signed bits\<close>
  is an integer type (\<^verbatim>\<open>int\<close> is \<open>TIntegral True 32\<close>). \<open>TFloating to_num\<close> is a
  floating-point type: its \<^verbatim>\<open>to_num\<close> calls \<^verbatim>\<open>fast_float::from_chars\<close> or
  \<^verbatim>\<open>std::from_chars\<close>, which are not part of the repository, so the parse of the bytes
  is a parameter. A value of a variant carries the index of its alternative.
\<close>

datatype val =
    VInt int
  | VFloat real
  | VBool bool
  | VChar char
  | VString string
  | VOptional "val option"
  | VVariant nat val

datatype ty =
    TIntegral bool nat
  | TFloating "string \<Rightarrow> real option"
  | TBool
  | TChar
  | TString
  | TOptional ty
  | TVariant "ty list"

text \<open>The value-initialised object of a type (\<^verbatim>\<open>T{}\<close>). \<^verbatim>\<open>std::variant<>\<close> does not compile.\<close>

fun default_val :: "ty \<Rightarrow> val" where
  "default_val (TIntegral s b) = VInt 0"
| "default_val (TFloating f) = VFloat 0"
| "default_val TBool = VBool False"
| "default_val TChar = VChar (CHR 0x00)"
| "default_val TString = VString []"
| "default_val (TOptional t) = VOptional None"
| "default_val (TVariant []) = VVariant 0 (VString [])"
| "default_val (TVariant (t # ts)) = VVariant 0 (default_val t)"

text \<open>The bytes of a range \<^verbatim>\<open>[begin, end)\<close> of the buffer.\<close>

definition range_string :: "char list \<Rightarrow> nat \<Rightarrow> nat \<Rightarrow> string" where
  "range_string mem begin end = take (end - begin) (drop begin mem)"

definition from_char :: "char \<Rightarrow> int option" where
  "from_char c =
    (if of_char c \<ge> (48 :: nat) \<and> of_char c \<le> (57 :: nat)
     then Some (int (of_char c) - 48) else None)"

definition representable :: "bool \<Rightarrow> nat \<Rightarrow> int \<Rightarrow> bool" where
  "representable signed bits v =
    (if signed then - (2 ^ (bits - 1)) \<le> v \<and> v < 2 ^ (bits - 1) else 0 \<le> v \<and> v < 2 ^ bits)"

text \<open>
  \<^verbatim>\<open>shift_and_add_overflow\<close> with the compiler's overflow builtins: the value times ten,
  then plus or minus the digit; an overflow of either step fails the conversion.
\<close>

fun to_num_loop :: "bool \<Rightarrow> nat \<Rightarrow> bool \<Rightarrow> int \<Rightarrow> string \<Rightarrow> int option" where
  "to_num_loop signed bits is_negative value [] = Some value"
| "to_num_loop signed bits is_negative value (c # cs) =
    (case from_char c of
      None \<Rightarrow> None
    | Some digit \<Rightarrow>
        if \<not> representable signed bits (value * 10) then None
        else
          (let v = (if is_negative then value * 10 - digit else value * 10 + digit)
           in if \<not> representable signed bits v then None
              else to_num_loop signed bits is_negative v cs))"

text \<open>\<^verbatim>\<open>to_num<T>\<close> for an integral \<open>T\<close>, on the bytes of the range.\<close>

definition to_num :: "bool \<Rightarrow> nat \<Rightarrow> string \<Rightarrow> int option" where
  "to_num signed bits s =
    (if s = [] then None
     else if signed \<and> hd s = CHR ''-'' then to_num_loop signed bits True 0 (tl s)
     else to_num_loop signed bits False 0 s)"

text \<open>
  \<^verbatim>\<open>extract(begin, end, value)\<close>, here \<open>ss_extract\<close>: the result says whether the conversion succeeded, and
  the model returns the destination \<open>value\<close> as the call leaves it. \<^verbatim>\<open>extract_variant<T, I>\<close>
  tries the alternative \<open>I\<close> on a local of its type and goes on to \<open>I + 1\<close> when it fails;
  the model walks the alternatives not yet tried, with the index of the first of them.
\<close>

fun ss_extract :: "ty \<Rightarrow> char list \<Rightarrow> nat \<Rightarrow> nat \<Rightarrow> val \<Rightarrow> bool \<times> val"
  and extract_variant :: "ty list \<Rightarrow> nat \<Rightarrow> char list \<Rightarrow> nat \<Rightarrow> nat \<Rightarrow> val \<Rightarrow> bool \<times> val"
where
  "ss_extract (TIntegral signed bits) mem begin end value =
    (case to_num signed bits (range_string mem begin end) of
      None \<Rightarrow> (False, value) | Some v \<Rightarrow> (True, VInt v))"
| "ss_extract (TFloating f) mem begin end value =
    (case f (range_string mem begin end) of
      None \<Rightarrow> (False, value) | Some v \<Rightarrow> (True, VFloat v))"
| "ss_extract TBool mem begin end value =
    (if end = begin + 1 then
       if peek mem begin = CHR ''1'' then (True, VBool True)
       else if peek mem begin = CHR ''0'' then (True, VBool False)
       else (False, value)
     else if end - begin = 4 \<and> range_string mem begin end = ''true'' then (True, VBool True)
     else if end - begin = 5 \<and> range_string mem begin end = ''false'' then (True, VBool False)
     else (False, value))"
| "ss_extract TChar mem begin end value = (end = begin + 1, VChar (peek mem begin))"
| "ss_extract TString mem begin end value = (True, VString (range_string mem begin end))"
| "ss_extract (TOptional t) mem begin end value =
    (case ss_extract t mem begin end (default_val t) of
      (True, raw_value) \<Rightarrow> (True, VOptional (Some raw_value))
    | (False, raw_value) \<Rightarrow> (True, VOptional None))"
| "ss_extract (TVariant ts) mem begin end value = extract_variant ts 0 mem begin end value"
| "extract_variant [] i mem begin end value = (False, value)"
| "extract_variant (t # ts) i mem begin end value =
    (case ss_extract t mem begin end (default_val t) of
      (True, ithValue) \<Rightarrow> (True, VVariant i ithValue)
    | (False, ithValue) \<Rightarrow> extract_variant ts (i + 1) mem begin end value)"

subsection \<open>The alternatives of a variant, for the statements below\<close>

text \<open>
  Whether the alternative \<open>k\<close> of a variant converts the range \<open>m\<close> on its own, and the
  value it gives.
\<close>

definition alt_ok :: "ty list \<Rightarrow> char list \<Rightarrow> string_range \<Rightarrow> nat \<Rightarrow> bool" where
  "alt_ok ts mem m k = fst (ss_extract (ts ! k) mem (fst m) (snd m) (default_val (ts ! k)))"

definition alt_val :: "ty list \<Rightarrow> char list \<Rightarrow> string_range \<Rightarrow> nat \<Rightarrow> val" where
  "alt_val ts mem m k = snd (ss_extract (ts ! k) mem (fst m) (snd m) (default_val (ts ! k)))"

section \<open>Converter\<close>

text \<open>
  A position of the parse list \<^verbatim>\<open>Ts...\<close>: \<^verbatim>\<open>void\<close>, a type, or a validator over a type
  (a class with \<^verbatim>\<open>ss_valid\<close>, and with \<^verbatim>\<open>error\<close> when it has a message of its own).
\<close>

datatype pos =
    Void
  | Plain ty
  | Validator ty "val \<Rightarrow> bool" "string option"

fun is_void :: "pos \<Rightarrow> bool" where
  "is_void Void = True"
| "is_void (Plain t) = False"
| "is_void (Validator t ss_valid error) = False"

fun no_validator :: "pos \<Rightarrow> ty" where
  "no_validator Void = TString"
| "no_validator (Plain t) = t"
| "no_validator (Validator t ss_valid error) = t"

text \<open>
  \<^verbatim>\<open>no_void_validator_tup_t<Ts...>{}\<close>: the value-initialised result, one value for each
  position that is not \<^verbatim>\<open>void\<close>.
\<close>

definition default_tuple :: "pos list \<Rightarrow> val list" where
  "default_tuple ps = map (default_val \<circ> no_validator) (filter (\<lambda>p. \<not> is_void p) ps)"

record converter =
  conv_error_m :: error_type
  splitter_m :: splitter
  column_mappings_m :: "nat list"
  number_of_columns_m :: nat

definition new_converter :: converter where
  "new_converter =
    \<lparr>conv_error_m = no_error, splitter_m = new_splitter, column_mappings_m = [],
     number_of_columns_m = 0\<rparr>"

definition converter_valid :: "ss_setup \<Rightarrow> converter \<Rightarrow> bool" where
  "converter_valid cfg cv =
    (if string_error cfg then msg (conv_error_m cv) = [] else \<not> flag (conv_error_m cv))"


text \<open>
  \<^verbatim>\<open>converter::split\<close>: an empty line is not passed to the splitter. The line is the
  memory \<open>mem\<close> from its address \<open>line\<close>.
\<close>

definition converter_split ::
  "ss_setup \<Rightarrow> converter \<Rightarrow> nat \<Rightarrow> char list \<Rightarrow> string \<Rightarrow> converter" where
  "converter_split cfg cv line mem delim =
    (let sp = (splitter_m cv)\<lparr>split_data_m := []\<rparr>
     in if peek mem line = CHR 0x00 then cv\<lparr>splitter_m := sp\<rparr>
        else cv\<lparr>splitter_m := split cfg sp line mem delim\<rparr>)"


subsection \<open>Errors of the converter\<close>

definition converter_clear_error :: "ss_setup \<Rightarrow> converter \<Rightarrow> converter" where
  "converter_clear_error cfg cv = cv\<lparr>conv_error_m := clear cfg (conv_error_m cv)\<rparr>"

definition error_sufix :: "string \<Rightarrow> nat \<Rightarrow> string" where
  "error_sufix m p = ''at column '' @ to_string (p + 1) @ '': '' @ [CHR 0x27] @ m @ [CHR 0x27]"

definition conv_set_error_unterminated_quote :: "ss_setup \<Rightarrow> converter \<Rightarrow> converter" where
  "conv_set_error_unterminated_quote cfg cv =
    cv\<lparr>conv_error_m := set_error cfg (msg (error_m (splitter_m cv))) (conv_error_m cv)\<rparr>"



definition set_error_invalid_conversion ::
  "ss_setup \<Rightarrow> string \<Rightarrow> nat \<Rightarrow> converter \<Rightarrow> converter" where
  "set_error_invalid_conversion cfg m p cv =
    cv\<lparr>conv_error_m :=
        set_error cfg (''invalid conversion for parameter '' @ error_sufix m p) (conv_error_m cv)\<rparr>"

definition set_error_validate ::
  "ss_setup \<Rightarrow> string \<Rightarrow> string \<Rightarrow> nat \<Rightarrow> converter \<Rightarrow> converter" where
  "set_error_validate cfg error m p cv =
    cv\<lparr>conv_error_m := set_error cfg (error @ '' '' @ error_sufix m p) (conv_error_m cv)\<rparr>"

definition set_error_number_of_columns ::
  "ss_setup \<Rightarrow> nat \<Rightarrow> nat \<Rightarrow> converter \<Rightarrow> converter" where
  "set_error_number_of_columns cfg expected_pos p cv =
    cv\<lparr>conv_error_m :=
        set_error cfg (''invalid number of columns, expected: '' @ to_string expected_pos @
          '', got: '' @ to_string p) (conv_error_m cv)\<rparr>"

definition set_error_incompatible_mapping ::
  "ss_setup \<Rightarrow> nat \<Rightarrow> nat \<Rightarrow> converter \<Rightarrow> converter" where
  "set_error_incompatible_mapping cfg argument_size mapping_size cv =
    cv\<lparr>conv_error_m :=
        set_error cfg (''number of arguments does not match mapping, expected: '' @
          to_string mapping_size @ '', got: '' @ to_string argument_size) (conv_error_m cv)\<rparr>"

definition set_error_invalid_mapping :: "ss_setup \<Rightarrow> converter \<Rightarrow> converter" where
  "set_error_invalid_mapping cfg cv =
    cv\<lparr>conv_error_m := set_error cfg ''received empty mapping'' (conv_error_m cv)\<rparr>"

definition set_error_mapping_out_of_range ::
  "ss_setup \<Rightarrow> nat \<Rightarrow> nat \<Rightarrow> converter \<Rightarrow> converter" where
  "set_error_mapping_out_of_range cfg maximum_index number_of_columnts cv =
    cv\<lparr>conv_error_m :=
        set_error cfg (''maximum index: '' @ to_string maximum_index @
          '', greater then number of columns: '' @ to_string number_of_columnts)
          (conv_error_m cv)\<rparr>"

subsection \<open>Column mapping\<close>

definition columns_mapped :: "converter \<Rightarrow> bool" where
  "columns_mapped cv = (length (column_mappings_m cv) \<noteq> 0)"

definition column_position :: "converter \<Rightarrow> nat \<Rightarrow> nat" where
  "column_position cv tuple_position =
    (if \<not> columns_mapped cv then tuple_position else column_mappings_m cv ! tuple_position)"

definition set_column_mapping :: "ss_setup \<Rightarrow> nat list \<Rightarrow> nat \<Rightarrow> converter \<Rightarrow> converter" where
  "set_column_mapping cfg positions number_of_columns cv =
    (if positions = [] then set_error_invalid_mapping cfg cv
     else if Max (set positions) \<ge> number_of_columns
     then set_error_mapping_out_of_range cfg (Max (set positions)) number_of_columns cv
     else cv\<lparr>column_mappings_m := positions, number_of_columns_m := number_of_columns\<rparr>)"

subsection \<open>Conversion\<close>

text \<open>
  \<^verbatim>\<open>extract_one<T>(dst, msg, pos)\<close>: nothing is done once the converter holds an error.
  The model returns the converter and the destination.
\<close>

fun extract_one ::
  "ss_setup \<Rightarrow> pos \<Rightarrow> char list \<Rightarrow> string_range \<Rightarrow> nat \<Rightarrow> converter \<Rightarrow> val \<Rightarrow> converter \<times> val" where
  "extract_one cfg Void mem m p cv dst = (cv, dst)"
| "extract_one cfg (Plain t) mem m p cv dst =
    (if \<not> converter_valid cfg cv then (cv, dst)
     else
       (case ss_extract t mem (fst m) (snd m) dst of
         (False, dst1) \<Rightarrow>
           (set_error_invalid_conversion cfg (range_string mem (fst m) (snd m)) p cv, dst1)
       | (True, dst1) \<Rightarrow> (cv, dst1)))"
| "extract_one cfg (Validator t ss_valid error) mem m p cv dst =
    (if \<not> converter_valid cfg cv then (cv, dst)
     else
       (case ss_extract t mem (fst m) (snd m) dst of
         (False, dst1) \<Rightarrow>
           (set_error_invalid_conversion cfg (range_string mem (fst m) (snd m)) p cv, dst1)
       | (True, dst1) \<Rightarrow>
           if \<not> ss_valid dst1 then
             (set_error_validate cfg (case error of Some e \<Rightarrow> e | None \<Rightarrow> ''validation error'')
                (range_string mem (fst m) (snd m)) p cv, dst1)
           else (cv, dst1)))"

text \<open>
  \<^verbatim>\<open>extract_multiple<ArgN, TupN, Ts...>\<close>: the positions from \<open>ArgN\<close> on, in order; a
  position that is not \<^verbatim>\<open>void\<close> fills the next element of the tuple. \<open>ps\<close> holds the
  positions from \<open>ArgN\<close> on, and the result the elements of the tuple from \<open>TupN\<close> on.
  The element of the split data is read with \<^verbatim>\<open>operator[]\<close>, which the arity check of
  \<^verbatim>\<open>convert_impl\<close> keeps in range.
\<close>

fun extract_multiple ::
  "ss_setup \<Rightarrow> pos list \<Rightarrow> nat \<Rightarrow> char list \<Rightarrow> split_data \<Rightarrow> converter \<Rightarrow> converter \<times> val list" where
  "extract_multiple cfg [] ArgN mem elems cv = (cv, [])"
| "extract_multiple cfg (p # ps) ArgN mem elems cv =
    (if is_void p then extract_multiple cfg ps (ArgN + 1) mem elems cv
     else
       (case extract_one cfg p mem (elems ! column_position cv ArgN) ArgN cv
               (default_val (no_validator p)) of
         (cv1, el) \<Rightarrow>
           (case extract_multiple cfg ps (ArgN + 1) mem elems cv1 of
             (cv2, tup) \<Rightarrow> (cv2, el # tup))))"

definition extract_tuple ::
  "ss_setup \<Rightarrow> pos list \<Rightarrow> char list \<Rightarrow> split_data \<Rightarrow> converter \<Rightarrow> converter \<times> val list" where
  "extract_tuple cfg ps mem elems cv = extract_multiple cfg ps 0 mem elems cv"

text \<open>
  \<^verbatim>\<open>convert_impl<Ts...>(elems)\<close>. The ranges of \<open>elems\<close> point into the buffer of the
  converter's splitter.
\<close>

definition convert_impl ::
  "ss_setup \<Rightarrow> pos list \<Rightarrow> split_data \<Rightarrow> converter \<Rightarrow> converter \<times> val list" where
  "convert_impl cfg ps elems cv0 =
    (let cv = converter_clear_error cfg cv0
     in if \<not> splitter_valid cfg (splitter_m cv)
        then (conv_set_error_unterminated_quote cfg cv, default_tuple ps)
        else if \<not> columns_mapped cv then
          if length ps \<noteq> length elems
          then (set_error_number_of_columns cfg (length ps) (length elems) cv, default_tuple ps)
          else extract_tuple cfg ps (buf_m (splitter_m cv)) elems cv
        else if length ps \<noteq> length (column_mappings_m cv)
        then (set_error_incompatible_mapping cfg (length ps) (length (column_mappings_m cv)) cv,
              default_tuple ps)
        else if length elems \<noteq> number_of_columns_m cv
        then (set_error_number_of_columns cfg (number_of_columns_m cv) (length elems) cv,
              default_tuple ps)
        else extract_tuple cfg ps (buf_m (splitter_m cv)) elems cv)"

text \<open>
  The arity rule in the words of the specification, for the statements below: \<open>k\<close> input
  columns, a parse list of arity \<open>n\<close>, a mapping of length \<open>m\<close> (zero when there is none)
  and the column count recorded when the mapping was installed.
\<close>

definition arity_ok :: "nat \<Rightarrow> nat \<Rightarrow> nat \<Rightarrow> nat \<Rightarrow> bool" where
  "arity_ok k n m original_column_count =
    (if m = 0 then k = n else m = n \<and> k = original_column_count)"

text \<open>\<^verbatim>\<open>convert<Ts...>()\<close> on the cached split line, and on a line that is split first.\<close>

definition convert :: "ss_setup \<Rightarrow> pos list \<Rightarrow> converter \<Rightarrow> converter \<times> val list" where
  "convert cfg ps cv = convert_impl cfg ps (split_data_m (splitter_m cv)) cv"

definition convert_line ::
  "ss_setup \<Rightarrow> pos list \<Rightarrow> converter \<Rightarrow> char list \<Rightarrow> string \<Rightarrow> converter \<times> val list" where
  "convert_line cfg ps cv line delim = convert cfg ps (converter_split cfg cv 0 line delim)"

section \<open>Line reader\<close>



































section \<open>Parser facade\<close>











section \<open>Rows, for the statements on the splitter\<close>

text \<open>
  The statements on the splitter speak of the line a list of fields is written as, and of
  the field strings a split leaves. A row is written by joining the texts of its cells with
  the delimiter; \<open>fields\<close> reads the ranges of the split data back from the buffer.
\<close>

fun join :: "string \<Rightarrow> string list \<Rightarrow> string" where
  "join d [] = []"
| "join d [t] = t"
| "join d (t # u # ts) = t @ d @ join d (u # ts)"

text \<open>
  A token with no byte that the splitter treats specially: no terminator, quote, escape or
  delimiter byte, and no trimmed byte at either end.
\<close>

definition plain_token :: "ss_setup \<Rightarrow> string \<Rightarrow> string \<Rightarrow> bool" where
  "plain_token cfg delim t =
    ((\<forall>c \<in> set t. c \<noteq> CHR 0x00 \<and> \<not> quote_match cfg c \<and> \<not> match (escape cfg) c \<and>
        c \<notin> set delim) \<and>
     (t \<noteq> [] \<longrightarrow> \<not> match (trim_left cfg) (hd t) \<and> \<not> match (trim_right cfg) (last t)))"

definition plain_delimiter :: "ss_setup \<Rightarrow> string \<Rightarrow> bool" where
  "plain_delimiter cfg delim =
    (delim \<noteq> [] \<and>
     (\<forall>c \<in> set delim. c \<noteq> CHR 0x00 \<and> \<not> quote_match cfg c \<and>
        \<not> match (trim_left cfg) c \<and> \<not> match (trim_right cfg) c))"

definition fields :: "splitter \<Rightarrow> string list" where
  "fields sp = map (\<lambda>(begin, end). range_string (buf_m sp) begin end) (split_data_m sp)"

text \<open>
  What reading one field does to the splitter: the range \<open>(b, e)\<close> is appended, and either
  the split is done or the next field begins at \<open>next\<close>.
\<close>

definition field_read ::
  "splitter \<Rightarrow> nat \<Rightarrow> nat \<Rightarrow> bool \<Rightarrow> nat \<Rightarrow> splitter \<Rightarrow> bool" where
  "field_read sp b e last_field next r =
    (buf_m r = buf_m sp \<and> split_data_m r = split_data_m sp @ [(b, e)] \<and>
     error_m r = error_m sp \<and> unterminated_quote_m r = unterminated_quote_m sp \<and>
     resplitting_m r = resplitting_m sp \<and>
     (if last_field then done_m r else done_m r = done_m sp \<and> begin_m r = next))"

text \<open>
  A cell is written bare or between quotes; a quoted cell may hold delimiter and trimmed
  bytes. \<open>cell_ranges\<close> are the ranges of the cells in the row written from offset \<open>b\<close>.
\<close>

datatype cell = Unquoted string | Quoted string

fun cell_text :: "ss_setup \<Rightarrow> cell \<Rightarrow> string" where
  "cell_text cfg (Unquoted t) = t"
| "cell_text cfg (Quoted t) = quote cfg # t @ [quote cfg]"

fun cell_value :: "cell \<Rightarrow> string" where
  "cell_value (Unquoted t) = t"
| "cell_value (Quoted t) = t"

fun cell_ok :: "ss_setup \<Rightarrow> string \<Rightarrow> cell \<Rightarrow> bool" where
  "cell_ok cfg delim (Unquoted t) = plain_token cfg delim t"
| "cell_ok cfg delim (Quoted t) =
    (quote_enabled cfg \<and>
     (\<forall>c \<in> set t. c \<noteq> CHR 0x00 \<and> \<not> quote_match cfg c \<and> \<not> match (escape cfg) c))"

definition row_text :: "ss_setup \<Rightarrow> string \<Rightarrow> cell list \<Rightarrow> string" where
  "row_text cfg delim cells = join delim (map (cell_text cfg) cells)"

fun cell_range :: "nat \<Rightarrow> cell \<Rightarrow> string_range" where
  "cell_range b (Unquoted t) = (b, b + length t)"
| "cell_range b (Quoted t) = (b + 1, b + 1 + length t)"

fun cell_ranges :: "ss_setup \<Rightarrow> nat \<Rightarrow> nat \<Rightarrow> cell list \<Rightarrow> split_data" where
  "cell_ranges cfg b d [] = []"
| "cell_ranges cfg b d (c # cs) =
    cell_range b c # cell_ranges cfg (b + length (cell_text cfg c) + d) d cs"




section \<open>Properties of the trailing-escape test\<close>

lemma escaped_eol_loop_count:
  "cur < int (length buf) \<Longrightarrow> - 1 \<le> cur \<Longrightarrow>
   escaped_eol_loop esc buf cur =
     cur - int (length (takeWhile (match esc) (rev (take (nat (cur + 1)) buf))))"
proof (induction esc buf cur rule: escaped_eol_loop.induct)
  case (1 esc buf cur)
  show ?case
  proof (cases "cur \<ge> 0 \<and> match esc (peek buf (nat cur))")
    case False
    show ?thesis
    proof (cases "cur \<ge> 0")
      case True
      with False "1.prems" have nm: "\<not> match esc (buf ! nat cur)"
        by (simp add: peek_def nat_less_iff)
      from True "1.prems" have "take (nat (cur + 1)) buf = take (nat cur) buf @ [buf ! nat cur]"
        by (simp add: nat_add_distrib take_Suc_conv_app_nth)
      with nm False show ?thesis
        by (subst escaped_eol_loop.simps) simp
    next
      case neg: False
      with "1.prems" have "cur = - 1" by simp
      then show ?thesis
        by (subst escaped_eol_loop.simps) simp
    qed
  next
    case True
    then have ge: "cur \<ge> 0" and m: "match esc (buf ! nat cur)"
      using "1.prems" by (simp_all add: peek_def nat_less_iff split: if_splits)
    from ge "1.prems" have tk: "take (nat (cur + 1)) buf = take (nat cur) buf @ [buf ! nat cur]"
      by (simp add: nat_add_distrib take_Suc_conv_app_nth)
    have ih: "escaped_eol_loop esc buf (cur - 1) =
        cur - 1 - int (length (takeWhile (match esc) (rev (take (nat (cur - 1 + 1)) buf))))"
      using "1.IH" [OF True] "1.prems" ge by simp
    have "escaped_eol_loop esc buf cur = escaped_eol_loop esc buf (cur - 1)"
      using True by (subst escaped_eol_loop.simps) simp
    with ih tk m show ?thesis by simp
  qed
qed

text \<open>
  C8. The trailing-escape test of the escaped-continuation loop is true iff the record
  buffer (its first \<open>size\<close> bytes) ends with an odd number of consecutive escape bytes,
  counted leftward from the end of the buffer.
\<close>

theorem escaped_eol_odd_trailing_escapes:
  "sz \<le> length buf \<Longrightarrow>
   escaped_eol cfg buf sz =
     odd (length (takeWhile (match (escape cfg)) (rev (take sz buf))))"
proof -
  assume le: "sz \<le> length buf"
  let ?k = "length (takeWhile (match (escape cfg)) (rev (take sz buf)))"
  have "escaped_eol_loop (escape cfg) buf (int sz - 1) = int sz - 1 - int ?k"
    using escaped_eol_loop_count [of "int sz - 1" buf "escape cfg"] le by simp
  then have "escaped_eol cfg buf sz = ((int ?k + 1) mod 2 = 0)"
    by (simp add: escaped_eol_def)
  also have "\<dots> = odd ?k"
    by presburger
  finally show ?thesis .
qed

theorem escaped_eol_odd_trailing_escapes_witness:
  "escaped_eol (default_setup\<lparr>escape := [CHR 0x5C]\<rparr>) [CHR ''a'', CHR 0x5C, CHR 0x5C, CHR 0x5C] 4
   \<and> \<not> escaped_eol (default_setup\<lparr>escape := [CHR 0x5C]\<rparr>) [CHR ''a'', CHR 0x5C, CHR 0x5C] 3
   \<and> \<not> escaped_eol (default_setup\<lparr>escape := [CHR 0x5C]\<rparr>) [] 0"
  using escaped_eol_odd_trailing_escapes
    [of 4 "[CHR ''a'', CHR 0x5C, CHR 0x5C, CHR 0x5C]" "default_setup\<lparr>escape := [CHR 0x5C]\<rparr>"]
    escaped_eol_odd_trailing_escapes
    [of 3 "[CHR ''a'', CHR 0x5C, CHR 0x5C]" "default_setup\<lparr>escape := [CHR 0x5C]\<rparr>"]
    escaped_eol_odd_trailing_escapes
    [of 0 "[]" "default_setup\<lparr>escape := [CHR 0x5C]\<rparr>"]
  by (simp add: default_setup_def match_def)

section \<open>Properties of the facade's validity\<close>

text \<open>
  C10. Under the throw-on-error mode, \<^verbatim>\<open>valid()\<close> is true whatever the parser's error
  member holds, so a failure never shows through it: the setup cannot select the string
  mode as well, and the throwing branch returns true without reading the member.
\<close>

theorem parser_valid_throw_on_error:
  "setup_ok cfg \<Longrightarrow> throw_on_error cfg \<Longrightarrow> parser_valid cfg error"
  by (simp add: setup_ok_def parser_valid_def)

theorem parser_valid_throw_on_error_witness:
  "setup_ok (default_setup\<lparr>throw_on_error := True\<rparr>)
   \<and> throw_on_error (default_setup\<lparr>throw_on_error := True\<rparr>)
   \<and> parser_valid (default_setup\<lparr>throw_on_error := True\<rparr>) \<lparr>flag = True, msg = ''junk''\<rparr>"
proof -
  have ok: "setup_ok (default_setup\<lparr>throw_on_error := True\<rparr>)"
    by (simp add: setup_ok_def default_setup_def matches_intersect_def quote_enabled_def
        escape_enabled_def)
  have thr: "throw_on_error (default_setup\<lparr>throw_on_error := True\<rparr>)"
    by (simp add: default_setup_def)
  from ok thr parser_valid_throw_on_error [OF ok thr, of "\<lparr>flag = True, msg = ''junk''\<rparr>"]
  show ?thesis by simp
qed

section \<open>Properties of the extraction of a variant\<close>

lemma extract_variant_index:
  "k < length ts \<Longrightarrow>
   fst (ss_extract (ts ! k) mem b e (default_val (ts ! k))) \<Longrightarrow>
   (\<forall>j<k. \<not> fst (ss_extract (ts ! j) mem b e (default_val (ts ! j)))) \<Longrightarrow>
   extract_variant ts i mem b e v =
     (True, VVariant (i + k) (snd (ss_extract (ts ! k) mem b e (default_val (ts ! k)))))"
proof (induction ts arbitrary: i k)
  case Nil
  then show ?case by simp
next
  case (Cons t ts)
  show ?case
  proof (cases k)
    case 0
    with Cons.prems show ?thesis
      by (cases "ss_extract t mem b e (default_val t)") auto
  next
    case (Suc k')
    with Cons.prems have f: "\<not> fst (ss_extract t mem b e (default_val t))" by auto
    from Suc Cons.prems have
      "extract_variant ts (i + 1) mem b e v =
        (True, VVariant (i + 1 + k') (snd (ss_extract (ts ! k') mem b e (default_val (ts ! k')))))"
      by (intro Cons.IH) auto
    with f Suc show ?thesis
      by (cases "ss_extract t mem b e (default_val t)") auto
  qed
qed

lemma extract_variant_all_fail:
  "(\<forall>j<length ts. \<not> fst (ss_extract (ts ! j) mem b e (default_val (ts ! j)))) \<Longrightarrow>
   extract_variant ts i mem b e v = (False, v)"
proof (induction ts arbitrary: i)
  case Nil
  then show ?case by simp
next
  case (Cons t ts)
  from Cons.prems have f: "\<not> fst (ss_extract t mem b e (default_val t))" by auto
  from Cons.prems have "\<forall>j<length ts. \<not> fst (ss_extract (ts ! j) mem b e (default_val (ts ! j)))"
    by auto
  then have "extract_variant ts (i + 1) mem b e v = (False, v)" by (rule Cons.IH)
  with f show ?case
    by (cases "ss_extract t mem b e (default_val t)") auto
qed

lemma set_error_not_valid:
  "m \<noteq> [] \<Longrightarrow> \<not> converter_valid cfg (cv\<lparr>conv_error_m := set_error cfg m (conv_error_m cv)\<rparr>)"
  by (simp add: converter_valid_def set_error_def)

text \<open>
  C5. At a variant position the alternatives are tried in the order of their declaration
  and the first that converts the field wins: the result holds the alternative \<open>k\<close> when
  \<open>k\<close> converts and no earlier one does. When no alternative converts, the destination is
  left as it was and the converter holds the invalid-conversion error, whose message (in
  the string mode) names the column, \<open>p + 1\<close>, and the bytes of the field. The converter
  must be free of an error when the position is reached: \<^verbatim>\<open>extract_one\<close> does nothing
  otherwise.
\<close>

theorem variant_declared_order:
  assumes v: "converter_valid cfg cv"
  shows
    "(\<forall>k<length ts. alt_ok ts mem m k \<and> (\<forall>j<k. \<not> alt_ok ts mem m j) \<longrightarrow>
        extract_one cfg (Plain (TVariant ts)) mem m p cv dst = (cv, VVariant k (alt_val ts mem m k)))
     \<and> ((\<forall>j<length ts. \<not> alt_ok ts mem m j) \<longrightarrow>
        extract_one cfg (Plain (TVariant ts)) mem m p cv dst =
          (set_error_invalid_conversion cfg (range_string mem (fst m) (snd m)) p cv, dst)
        \<and> \<not> converter_valid cfg (fst (extract_one cfg (Plain (TVariant ts)) mem m p cv dst))
        \<and> (string_error cfg \<longrightarrow>
             msg (conv_error_m (fst (extract_one cfg (Plain (TVariant ts)) mem m p cv dst))) =
               ''invalid conversion for parameter at column '' @ to_string (p + 1) @ '': '' @
               [CHR 0x27] @ range_string mem (fst m) (snd m) @ [CHR 0x27]))"
proof (intro conjI allI impI)
  fix k
  assume "k < length ts" and "alt_ok ts mem m k \<and> (\<forall>j<k. \<not> alt_ok ts mem m j)"
  then have "extract_variant ts 0 mem (fst m) (snd m) dst =
      (True, VVariant (0 + k) (alt_val ts mem m k))"
    unfolding alt_ok_def alt_val_def by (intro extract_variant_index) auto
  with v show "extract_one cfg (Plain (TVariant ts)) mem m p cv dst =
      (cv, VVariant k (alt_val ts mem m k))"
    by simp
next
  assume a: "\<forall>j<length ts. \<not> alt_ok ts mem m j"
  then have ev: "extract_variant ts 0 mem (fst m) (snd m) dst = (False, dst)"
    unfolding alt_ok_def by (intro extract_variant_all_fail) auto
  with v show r: "extract_one cfg (Plain (TVariant ts)) mem m p cv dst =
      (set_error_invalid_conversion cfg (range_string mem (fst m) (snd m)) p cv, dst)"
    by simp
  show "\<not> converter_valid cfg (fst (extract_one cfg (Plain (TVariant ts)) mem m p cv dst))"
    unfolding r by (simp add: set_error_invalid_conversion_def set_error_not_valid)
  show "msg (conv_error_m (fst (extract_one cfg (Plain (TVariant ts)) mem m p cv dst))) =
      ''invalid conversion for parameter at column '' @ to_string (p + 1) @ '': '' @
      [CHR 0x27] @ range_string mem (fst m) (snd m) @ [CHR 0x27]" if "string_error cfg"
    using that unfolding r
    by (simp add: set_error_invalid_conversion_def set_error_def error_sufix_def)
qed

theorem variant_declared_order_witness:
  "converter_valid (default_setup\<lparr>string_error := True\<rparr>) new_converter
   \<and> extract_one (default_setup\<lparr>string_error := True\<rparr>)
        (Plain (TVariant [TIntegral True 32, TString])) ''5,x'' (0, 1) 0 new_converter (VInt 7) =
       (new_converter, VVariant 0 (VInt 5))
   \<and> extract_one (default_setup\<lparr>string_error := True\<rparr>)
        (Plain (TVariant [TString, TIntegral True 32])) ''5,x'' (0, 1) 0 new_converter (VInt 7) =
       (new_converter, VVariant 0 (VString ''5''))
   \<and> msg (conv_error_m (fst (extract_one (default_setup\<lparr>string_error := True\<rparr>)
        (Plain (TVariant [TIntegral True 32, TBool])) ''5,x'' (2, 3) 1 new_converter (VInt 7)))) =
       ''invalid conversion for parameter at column 2: '' @ [CHR 0x27] @ ''x'' @ [CHR 0x27]"
proof -
  let ?cfg = "default_setup\<lparr>string_error := True\<rparr>"
  have v: "converter_valid ?cfg new_converter"
    by (simp add: converter_valid_def new_converter_def no_error_def default_setup_def)
  have n5: "to_num True 32 ''5'' = Some 5"
    by (simp add: to_num_def from_char_def representable_def)
  have nx: "to_num True 32 ''x'' = None"
    by (simp add: to_num_def from_char_def)
  have s: "string_error ?cfg" by (simp add: default_setup_def)
  have ts: "to_string 2 = ''2''" by (subst to_string.simps) (simp add: digit_char_def)
  have ok_a: "alt_ok [TIntegral True 32, TString] ''5,x'' (0, 1) 0"
    and val_a: "alt_val [TIntegral True 32, TString] ''5,x'' (0, 1) 0 = VInt 5"
    by (simp_all add: alt_ok_def alt_val_def range_string_def n5)
  have ok_b: "alt_ok [TString, TIntegral True 32] ''5,x'' (0, 1) 0"
    and val_b: "alt_val [TString, TIntegral True 32] ''5,x'' (0, 1) 0 = VString ''5''"
    by (simp_all add: alt_ok_def alt_val_def range_string_def)
  have fail_c: "\<forall>j<length [TIntegral True 32, TBool].
      \<not> alt_ok [TIntegral True 32, TBool] ''5,x'' (2, 3) j"
    by (simp add: alt_ok_def range_string_def nx peek_def less_Suc_eq)
  have rs: "range_string ''5,x'' (fst (2 :: nat, 3 :: nat)) (snd (2 :: nat, 3 :: nat)) = ''x''"
    by (simp add: range_string_def)
  note A = variant_declared_order
    [OF v, of "[TIntegral True 32, TString]" "''5,x''" "(0, 1)" 0 "VInt 7"]
  note B = variant_declared_order
    [OF v, of "[TString, TIntegral True 32]" "''5,x''" "(0, 1)" 0 "VInt 7"]
  note C = variant_declared_order
    [OF v, of "[TIntegral True 32, TBool]" "''5,x''" "(2, 3)" 1 "VInt 7"]
  have a: "extract_one ?cfg (Plain (TVariant [TIntegral True 32, TString])) ''5,x'' (0, 1) 0
      new_converter (VInt 7) = (new_converter, VVariant 0 (VInt 5))"
    using conjunct1 [OF A, rule_format, of 0] ok_a val_a by (simp del: extract_one.simps)
  have b: "extract_one ?cfg (Plain (TVariant [TString, TIntegral True 32])) ''5,x'' (0, 1) 0
      new_converter (VInt 7) = (new_converter, VVariant 0 (VString ''5''))"
    using conjunct1 [OF B, rule_format, of 0] ok_b val_b by (simp del: extract_one.simps)
  have rhs: "''invalid conversion for parameter at column '' @ to_string (1 + 1) @ '': '' @
      [CHR 0x27] @ range_string ''5,x'' (fst (2 :: nat, 3 :: nat)) (snd (2 :: nat, 3 :: nat)) @
      [CHR 0x27] =
      ''invalid conversion for parameter at column 2: '' @ [CHR 0x27] @ ''x'' @ [CHR 0x27]"
    by (subst to_string.simps) (simp add: digit_char_def range_string_def)
  have c0: "msg (conv_error_m (fst (extract_one ?cfg
      (Plain (TVariant [TIntegral True 32, TBool])) ''5,x'' (2, 3) 1 new_converter (VInt 7)))) =
      ''invalid conversion for parameter at column '' @ to_string (1 + 1) @ '': '' @
      [CHR 0x27] @ range_string ''5,x'' (fst (2 :: nat, 3 :: nat)) (snd (2 :: nat, 3 :: nat)) @
      [CHR 0x27]"
    by (rule mp [OF conjunct2 [OF conjunct2 [OF mp [OF conjunct2 [OF C] fail_c]]] s])
  have c: "msg (conv_error_m (fst (extract_one ?cfg
      (Plain (TVariant [TIntegral True 32, TBool])) ''5,x'' (2, 3) 1 new_converter (VInt 7)))) =
      ''invalid conversion for parameter at column 2: '' @ [CHR 0x27] @ ''x'' @ [CHR 0x27]"
    using c0 by (simp only: rhs)
  from v a b c show ?thesis by (simp del: extract_one.simps)
qed

section \<open>Properties of the arity check\<close>

lemma to_string_not_Nil: "to_string n \<noteq> []"
  by (subst to_string.simps) simp

text \<open>
  C2 (as amended). On a record whose split is valid, \<^verbatim>\<open>convert_impl\<close> goes on to the
  extraction exactly when the arity rule holds: \<open>k = n\<close> without a mapping, \<open>m = n\<close> and
  \<open>k\<close> the recorded column count with one. Otherwise the result is the value-initialised
  tuple and the converter holds an error: with a mapping of a length other than the
  arity it is the error "number of arguments does not match mapping", in every other case
  "invalid number of columns". Installing a mapping records the positions and the column
  count.
\<close>

theorem convert_impl_arity:
  assumes sv: "splitter_valid cfg (splitter_m cv)"
  shows
    "(arity_ok (length elems) (length ps) (length (column_mappings_m cv)) (number_of_columns_m cv) \<longrightarrow>
        convert_impl cfg ps elems cv =
          extract_tuple cfg ps (buf_m (splitter_m cv)) elems (converter_clear_error cfg cv))
     \<and> (\<not> arity_ok (length elems) (length ps) (length (column_mappings_m cv))
            (number_of_columns_m cv) \<longrightarrow>
        snd (convert_impl cfg ps elems cv) = default_tuple ps
        \<and> \<not> converter_valid cfg (fst (convert_impl cfg ps elems cv))
        \<and> (string_error cfg \<longrightarrow>
             msg (conv_error_m (fst (convert_impl cfg ps elems cv))) =
               (if length (column_mappings_m cv) \<noteq> 0 \<and> length ps \<noteq> length (column_mappings_m cv)
                then ''number of arguments does not match mapping, expected: '' @
                       to_string (length (column_mappings_m cv)) @ '', got: '' @
                       to_string (length ps)
                else ''invalid number of columns, expected: '' @
                       to_string (if length (column_mappings_m cv) = 0 then length ps
                                  else number_of_columns_m cv) @ '', got: '' @
                       to_string (length elems))))
     \<and> (positions \<noteq> [] \<and> Max (set positions) < total_columns \<longrightarrow>
          column_mappings_m (set_column_mapping cfg positions total_columns cv) = positions
          \<and> number_of_columns_m (set_column_mapping cfg positions total_columns cv) = total_columns
          \<and> splitter_m (set_column_mapping cfg positions total_columns cv) = splitter_m cv)"
proof -
  have sv': "splitter_valid cfg (splitter_m (converter_clear_error cfg cv))"
    using sv by (simp add: converter_clear_error_def)
  have keep: "column_mappings_m (converter_clear_error cfg cv) = column_mappings_m cv"
    "number_of_columns_m (converter_clear_error cfg cv) = number_of_columns_m cv"
    "splitter_m (converter_clear_error cfg cv) = splitter_m cv"
    by (simp_all add: converter_clear_error_def)
  show ?thesis
    using sv' keep
    by (auto simp: convert_impl_def Let_def arity_ok_def columns_mapped_def
        set_error_number_of_columns_def set_error_incompatible_mapping_def
        converter_valid_def set_error_def set_column_mapping_def to_string_not_Nil)
qed

theorem convert_impl_arity_witness:
  "splitter_valid (default_setup\<lparr>string_error := True\<rparr>)
     (splitter_m (set_column_mapping (default_setup\<lparr>string_error := True\<rparr>) [1, 0] 2
        (converter_split (default_setup\<lparr>string_error := True\<rparr>) new_converter 0 ''a,b'' '','')))
   \<and> convert_impl (default_setup\<lparr>string_error := True\<rparr>) [Plain TString, Plain TString]
        [(0, 1), (2, 3)]
        (set_column_mapping (default_setup\<lparr>string_error := True\<rparr>) [1, 0] 2
          (converter_split (default_setup\<lparr>string_error := True\<rparr>) new_converter 0 ''a,b'' '','')) =
       (set_column_mapping (default_setup\<lparr>string_error := True\<rparr>) [1, 0] 2
          (converter_split (default_setup\<lparr>string_error := True\<rparr>) new_converter 0 ''a,b'' '',''),
        [VString ''b'', VString ''a''])
   \<and> snd (convert_impl (default_setup\<lparr>string_error := True\<rparr>) [Plain TString]
        [(0, 1), (2, 3)]
        (converter_split (default_setup\<lparr>string_error := True\<rparr>) new_converter 0 ''a,b'' '','')) =
       [VString []]"
proof -
  let ?cfg = "default_setup\<lparr>string_error := True\<rparr>"
  let ?cv = "converter_split ?cfg new_converter 0 ''a,b'' '',''"
  let ?cm = "set_column_mapping ?cfg [1, 0] 2 ?cv"
  have sm: "splitter_valid ?cfg (splitter_m ?cm)" by code_simp
  have sv: "splitter_valid ?cfg (splitter_m ?cv)" by code_simp
  have ok: "arity_ok (length [(0 :: nat, 1 :: nat), (2, 3)]) (length [Plain TString, Plain TString])
      (length (column_mappings_m ?cm)) (number_of_columns_m ?cm)"
    by code_simp
  have bad: "\<not> arity_ok (length [(0 :: nat, 1 :: nat), (2, 3)]) (length [Plain TString])
      (length (column_mappings_m ?cv)) (number_of_columns_m ?cv)"
    by code_simp
  have ex: "extract_tuple ?cfg [Plain TString, Plain TString] (buf_m (splitter_m ?cm))
      [(0, 1), (2, 3)] (converter_clear_error ?cfg ?cm) = (?cm, [VString ''b'', VString ''a''])"
    by code_simp
  have dt: "default_tuple [Plain TString] = [VString []]"
    by (simp add: default_tuple_def)
  note M = convert_impl_arity [OF sm, of "[(0, 1), (2, 3)]" "[Plain TString, Plain TString]" "[1]" 2]
  note U = convert_impl_arity [OF sv, of "[(0, 1), (2, 3)]" "[Plain TString]" "[1]" 2]
  have a: "convert_impl ?cfg [Plain TString, Plain TString] [(0, 1), (2, 3)] ?cm =
      (?cm, [VString ''b'', VString ''a''])"
    using mp [OF conjunct1 [OF M] ok] ex by (simp only:)
  have b: "snd (convert_impl ?cfg [Plain TString] [(0, 1), (2, 3)] ?cv) = [VString []]"
    using conjunct1 [OF mp [OF conjunct1 [OF conjunct2 [OF U]] bad]] dt by (simp only:)
  from sm a b show ?thesis by (simp only: simp_thms)
qed

text \<open>
  The claim as it was stated fails where a mapping is installed and its length differs
  from the arity of the parse list: the error is not "invalid number of columns".
\<close>

theorem arity_mapping_mismatch_counterexample:
  "length (column_mappings_m
      (set_column_mapping (default_setup\<lparr>string_error := True\<rparr>) [0, 1] 2
        (converter_split (default_setup\<lparr>string_error := True\<rparr>) new_converter 0 ''a,b'' '',''))) = 2
   \<and> msg (conv_error_m (fst (convert (default_setup\<lparr>string_error := True\<rparr>) [Plain TString]
      (set_column_mapping (default_setup\<lparr>string_error := True\<rparr>) [0, 1] 2
        (converter_split (default_setup\<lparr>string_error := True\<rparr>) new_converter 0 ''a,b'' '',''))))) =
     ''number of arguments does not match mapping, expected: 2, got: 1''"
  by code_simp

section \<open>Properties of resplitting\<close>

text \<open>
  C9 (as amended). On a splitter suspended at an unterminated quote, with quoting and
  multiline enabled, \<^verbatim>\<open>resplit\<close> sets the invalid-resplit error, clears the
  unterminated-quote condition and leaves the split data and the buffer as they were
  exactly when the reported size is not \<open>- 1\<close> and, as a \<^verbatim>\<open>size_t\<close>, is below the offset of
  the opening quote of the suspended field. Otherwise it resumes the split.
\<close>

theorem resplit_shorter_buffer:
  assumes "quote_enabled cfg" and "multiline_enabled cfg" and "split_data_m sp \<noteq> []"
    and "unterminated_quote_m sp"
  shows
    "(new_size \<noteq> - 1 \<and> size_t_of new_size < opening_quote_offset sp \<longrightarrow>
        resplit cfg sp new_line mem new_size delim = set_error_invalid_resplit cfg sp
        \<and> \<not> splitter_valid cfg (resplit cfg sp new_line mem new_size delim)
        \<and> \<not> unterminated_quote_m (resplit cfg sp new_line mem new_size delim)
        \<and> split_data_m (resplit cfg sp new_line mem new_size delim) = split_data_m sp
        \<and> buf_m (resplit cfg sp new_line mem new_size delim) = buf_m sp)
     \<and> (\<not> (new_size \<noteq> - 1 \<and> size_t_of new_size < opening_quote_offset sp) \<longrightarrow>
        resplit cfg sp new_line mem new_size delim =
          split_impl_select_delim cfg delim (resume_state sp new_line mem))"
  using assms
  by (auto simp: resplit_def Let_def opening_quote_offset_def resume_state_def
      set_error_invalid_resplit_def splitter_valid_def set_error_def split: prod.splits)

theorem resplit_shorter_buffer_witness:
  "quote_enabled (default_setup\<lparr>quote := CHR 0x22, multiline_enabled := True\<rparr>)
   \<and> multiline_enabled (default_setup\<lparr>quote := CHR 0x22, multiline_enabled := True\<rparr>)
   \<and> split_data_m (split (default_setup\<lparr>quote := CHR 0x22, multiline_enabled := True\<rparr>) new_splitter 0 [CHR ''x'', CHR '','', CHR 0x22, CHR ''a''] '','') = [(0, 1), (0, 3)]
   \<and> unterminated_quote_m (split (default_setup\<lparr>quote := CHR 0x22, multiline_enabled := True\<rparr>) new_splitter 0 [CHR ''x'', CHR '','', CHR 0x22, CHR ''a''] '','')
   \<and> size_t_of 1 < opening_quote_offset (split (default_setup\<lparr>quote := CHR 0x22, multiline_enabled := True\<rparr>) new_splitter 0 [CHR ''x'', CHR '','', CHR 0x22, CHR ''a''] '','')
   \<and> \<not> splitter_valid (default_setup\<lparr>quote := CHR 0x22, multiline_enabled := True\<rparr>)
        (resplit (default_setup\<lparr>quote := CHR 0x22, multiline_enabled := True\<rparr>) (split (default_setup\<lparr>quote := CHR 0x22, multiline_enabled := True\<rparr>) new_splitter 0 [CHR ''x'', CHR '','', CHR 0x22, CHR ''a''] '','') 0
          [CHR ''x'', CHR '','', CHR 0x22, CHR ''a'', CHR 0x0A, CHR ''b'', CHR 0x22] 1 '','')
   \<and> \<not> unterminated_quote_m
        (resplit (default_setup\<lparr>quote := CHR 0x22, multiline_enabled := True\<rparr>) (split (default_setup\<lparr>quote := CHR 0x22, multiline_enabled := True\<rparr>) new_splitter 0 [CHR ''x'', CHR '','', CHR 0x22, CHR ''a''] '','') 0
          [CHR ''x'', CHR '','', CHR 0x22, CHR ''a'', CHR 0x0A, CHR ''b'', CHR 0x22] 1 '','')
   \<and> split_data_m
        (resplit (default_setup\<lparr>quote := CHR 0x22, multiline_enabled := True\<rparr>) (split (default_setup\<lparr>quote := CHR 0x22, multiline_enabled := True\<rparr>) new_splitter 0 [CHR ''x'', CHR '','', CHR 0x22, CHR ''a''] '','') 0
          [CHR ''x'', CHR '','', CHR 0x22, CHR ''a'', CHR 0x0A, CHR ''b'', CHR 0x22] 1 '','') = [(0, 1), (0, 3)]"
proof -
  let ?cfg = "default_setup\<lparr>quote := CHR 0x22, multiline_enabled := True\<rparr>"
  let ?sp = "(split (default_setup\<lparr>quote := CHR 0x22, multiline_enabled := True\<rparr>) new_splitter 0 [CHR ''x'', CHR '','', CHR 0x22, CHR ''a''] '','')"
  have q: "quote_enabled ?cfg" and m: "multiline_enabled ?cfg"
    by (simp_all add: quote_enabled_def default_setup_def)
  have sd: "split_data_m ?sp = [(0, 1), (0, 3)]" by code_simp
  have ne: "split_data_m ?sp \<noteq> []" by (simp add: sd)
  have u: "unterminated_quote_m ?sp" by code_simp
  have lt: "size_t_of 1 < opening_quote_offset ?sp" by code_simp
  have c: "(1 :: int) \<noteq> - 1 \<and> size_t_of 1 < opening_quote_offset ?sp"
    using lt by simp
  note R = mp [OF conjunct1 [OF resplit_shorter_buffer [OF q m ne u,
    of 1 0 "[CHR ''x'', CHR '','', CHR 0x22, CHR ''a'', CHR 0x0A, CHR ''b'', CHR 0x22]" "'',''"]] c]
  from R have r: "\<not> splitter_valid ?cfg (resplit ?cfg ?sp 0
        [CHR ''x'', CHR '','', CHR 0x22, CHR ''a'', CHR 0x0A, CHR ''b'', CHR 0x22] 1 '','')"
      "\<not> unterminated_quote_m (resplit ?cfg ?sp 0
        [CHR ''x'', CHR '','', CHR 0x22, CHR ''a'', CHR 0x0A, CHR ''b'', CHR 0x22] 1 '','')"
      "split_data_m (resplit ?cfg ?sp 0
        [CHR ''x'', CHR '','', CHR 0x22, CHR ''a'', CHR 0x0A, CHR ''b'', CHR 0x22] 1 '','') =
        split_data_m ?sp"
    by blast+
  from r(3) sd have r3: "split_data_m (resplit ?cfg ?sp 0
        [CHR ''x'', CHR '','', CHR 0x22, CHR ''a'', CHR 0x0A, CHR ''b'', CHR 0x22] 1 '','') =
        [(0, 1), (0, 3)]"
    by (rule trans)
  from q m sd u lt r(1) r(2) r3 show ?thesis by blast
qed

text \<open>
  The claim as it was stated fails at the boundary: the last emitted slice, the
  placeholder of the suspended field, ends at offset 3, the reported size 2 is shorter,
  and \<^verbatim>\<open>resplit\<close> goes on and completes the record.
\<close>

theorem resplit_boundary_counterexample:
  "snd (last (split_data_m (split (default_setup\<lparr>quote := CHR 0x22, multiline_enabled := True\<rparr>) new_splitter 0 [CHR ''x'', CHR '','', CHR 0x22, CHR ''a''] '',''))) = 3
   \<and> splitter_valid (default_setup\<lparr>quote := CHR 0x22, multiline_enabled := True\<rparr>)
        (resplit (default_setup\<lparr>quote := CHR 0x22, multiline_enabled := True\<rparr>) (split (default_setup\<lparr>quote := CHR 0x22, multiline_enabled := True\<rparr>) new_splitter 0 [CHR ''x'', CHR '','', CHR 0x22, CHR ''a''] '','') 0
          [CHR ''x'', CHR '','', CHR 0x22, CHR ''a'', CHR 0x0A, CHR ''b'', CHR 0x22] 2 '','')
   \<and> split_data_m
        (resplit (default_setup\<lparr>quote := CHR 0x22, multiline_enabled := True\<rparr>) (split (default_setup\<lparr>quote := CHR 0x22, multiline_enabled := True\<rparr>) new_splitter 0 [CHR ''x'', CHR '','', CHR 0x22, CHR ''a''] '','') 0
          [CHR ''x'', CHR '','', CHR 0x22, CHR ''a'', CHR 0x0A, CHR ''b'', CHR 0x22] 2 '','') = [(0, 1), (3, 6)]"
  by code_simp

section \<open>Properties of the splitter: a quoted field\<close>

lemma trim_loop_stop:
  "\<not> (cur < length mem \<and> match m (peek mem cur)) \<Longrightarrow> trim_loop m mem cur = cur"
  by (subst trim_loop.simps) auto

lemma setup_ok_quote:
  assumes "setup_ok cfg" and "quote_enabled cfg"
  shows "quote cfg \<notin> set (trim_left cfg)" and "quote cfg \<notin> set (trim_right cfg)"
    and "quote cfg \<notin> set (escape cfg)"
  using assms by (auto simp: setup_ok_def matches_intersect_def quote_enabled_def)

lemma read_quoted_plain:
  "quote_enabled cfg \<Longrightarrow> \<not> quote_match cfg (peek (buf_m sp) (end_m sp)) \<Longrightarrow>
   \<not> match (escape cfg) (peek (buf_m sp) (end_m sp)) \<Longrightarrow>
   peek (buf_m sp) (end_m sp) \<noteq> CHR 0x00 \<Longrightarrow>
   read_quoted cfg delim sp = read_quoted cfg delim (sp\<lparr>end_m := end_m sp + 1\<rparr>)"
  by (subst read_quoted.simps) simp

lemma match_delimiter_eol:
  "peek (buf_m sp) (trim_right_if_enabled cfg (buf_m sp) b) = CHR 0x00 \<Longrightarrow>
   match_delimiter cfg sp b delim = (0, False, sp)"
  by (simp add: match_delimiter_def Let_def)

lemma match_delimiter_other:
  "\<not> match (trim_right cfg) (peek (buf_m sp) b) \<Longrightarrow> peek (buf_m sp) b \<noteq> CHR 0x00 \<Longrightarrow>
   \<not> match_delim (buf_m sp) b delim \<Longrightarrow> \<not> match (escape cfg) (peek (buf_m sp) b) \<Longrightarrow>
   match_delimiter cfg sp b delim = (1, False, sp)"
  by (simp add: match_delimiter_def Let_def trim_right_if_enabled_def trim_loop_stop
      shift_if_escaped_def)

lemma read_quoted_doubled:
  assumes "quote_enabled cfg" and "quote_match cfg (peek (buf_m sp) (end_m sp))"
    and "quote_match cfg (peek (buf_m sp) (end_m sp + 1))"
    and "\<not> match (trim_right cfg) (peek (buf_m sp) (end_m sp + 1))"
    and "\<not> match_delim (buf_m sp) (end_m sp + 1) delim"
    and "\<not> match (escape cfg) (peek (buf_m sp) (end_m sp + 1))"
  shows "read_quoted cfg delim sp = read_quoted cfg delim
      ((shift_and_jump_escape cfg sp)\<lparr>end_m := end_m (shift_and_jump_escape cfg sp) + 1\<rparr>)"
proof -
  from assms(1,3) have "peek (buf_m sp) (end_m sp + 1) \<noteq> CHR 0x00"
    by (auto simp: quote_enabled_def quote_match_def)
  with assms have "match_delimiter cfg sp (end_m sp + 1) delim = (1, False, sp)"
    by (intro match_delimiter_other) auto
  with assms show ?thesis
    by (subst read_quoted.simps) simp
qed

lemma read_quoted_closing_eol:
  assumes "quote_enabled cfg" and "quote_match cfg (peek (buf_m sp) (end_m sp))"
    and "peek (buf_m sp) (trim_right_if_enabled cfg (buf_m sp) (end_m sp + 1)) = CHR 0x00"
    and "\<not> quote_match cfg (peek (buf_m sp) (end_m sp + 1))"
  shows "read_quoted cfg delim sp = (shift_and_push cfg sp)\<lparr>done_m := True\<rparr>"
proof -
  from assms have "match_delimiter cfg sp (end_m sp + 1) delim = (0, False, sp)"
    by (intro match_delimiter_eol) auto
  with assms show ?thesis
    by (subst read_quoted.simps) simp
qed

text \<open>
  C3. With the quote \<^verbatim>\<open>"\<close> enabled, the line \<^verbatim>\<open>"x""y"\<close> splits into the one field
  \<^verbatim>\<open>x"y\<close>, whatever the trim matchers are: the range is \<open>[1, 4)\<close> of the record buffer,
  whose bytes 3 and 4 were moved one to the left in place. The setup is any that compiles;
  \<open>x\<close> and \<open>y\<close> are not escape characters, and the delimiter does not begin with the
  quote.
\<close>

theorem doubled_quote_field:
  assumes q: "quote cfg = CHR 0x22" and ok: "setup_ok cfg"
    and ex: "CHR ''x'' \<notin> set (escape cfg)" and ey: "CHR ''y'' \<notin> set (escape cfg)"
    and d: "delim \<noteq> []" and dq: "hd delim \<noteq> CHR 0x22"
    and nr: "\<not> resplitting_m sp"
  shows
    "split_data_m (split cfg sp 0 [CHR 0x22, CHR ''x'', CHR 0x22, CHR 0x22, CHR ''y'', CHR 0x22] delim)
       = [(1, 4)]
     \<and> buf_m (split cfg sp 0 [CHR 0x22, CHR ''x'', CHR 0x22, CHR 0x22, CHR ''y'', CHR 0x22] delim)
       = [CHR 0x22, CHR ''x'', CHR 0x22, CHR ''y'', CHR ''y'', CHR 0x22]
     \<and> range_string
         (buf_m (split cfg sp 0 [CHR 0x22, CHR ''x'', CHR 0x22, CHR 0x22, CHR ''y'', CHR 0x22] delim))
         1 4 = [CHR ''x'', CHR 0x22, CHR ''y'']
     \<and> splitter_valid cfg
         (split cfg sp 0 [CHR 0x22, CHR ''x'', CHR 0x22, CHR 0x22, CHR ''y'', CHR 0x22] delim)"
proof -
  let ?L = "[CHR 0x22, CHR ''x'', CHR 0x22, CHR 0x22, CHR ''y'', CHR 0x22]"
  define P where "P = (\<lambda>s. split_data_m s = [(1, 4)]
     \<and> buf_m s = [CHR 0x22, CHR ''x'', CHR 0x22, CHR ''y'', CHR ''y'', CHR 0x22]
     \<and> range_string (buf_m s) 1 4 = [CHR ''x'', CHR 0x22, CHR ''y'']
     \<and> splitter_valid cfg s)"
  from q have qe: "quote_enabled cfg" by (simp add: quote_enabled_def)
  note nq = setup_ok_quote [OF ok qe, unfolded q]
  have md3: "\<not> match_delim ?L (Suc (Suc (Suc 0))) delim"
    using d dq by (cases delim) (auto simp: match_delim_def peek_def)
  have ncl: "\<not> is_const_line cfg" using qe by (simp add: is_const_line_def)
  have tl0: "trim_left_if_enabled cfg ?L 0 = 0"
    using nq by (simp add: trim_left_if_enabled_def trim_loop_stop match_def peek_def)
  have "P (split cfg sp 0 ?L delim)"
    using d nr qe q tl0 nq ex ey md3 ncl
    apply (simp add: split_def split_impl_select_delim_def split_impl_def
        splitter_clear_error_def Let_def)
    apply (subst split_loop.simps)
    apply (simp add: read_def Let_def quote_match_def peek_def)
    apply (subst read_quoted_plain, simp_all add: quote_match_def peek_def match_def)
    apply (subst read_quoted_doubled, simp_all add: quote_match_def peek_def match_def
        shift_and_jump_escape_def shift_and_set_current_def Let_def)
    apply (subst read_quoted_plain, simp_all add: quote_match_def peek_def match_def)
    apply (subst read_quoted_closing_eol, simp_all add: quote_match_def peek_def
        trim_right_if_enabled_def trim_loop_stop shift_and_push_def shift_and_set_current_def
        Let_def)
    apply (subst split_loop.simps)
    apply (simp add: P_def range_string_def splitter_valid_def clear_def numeral_2_eq_2
        numeral_3_eq_3)
    done
  then show ?thesis unfolding P_def .
qed

theorem doubled_quote_field_witness:
  "quote (default_setup\<lparr>quote := CHR 0x22, trim_left := '' '', trim_right := '' ''\<rparr>) = CHR 0x22
   \<and> setup_ok (default_setup\<lparr>quote := CHR 0x22, trim_left := '' '', trim_right := '' ''\<rparr>)
   \<and> split_data_m (split (default_setup\<lparr>quote := CHR 0x22, trim_left := '' '', trim_right := '' ''\<rparr>) new_splitter 0
        [CHR 0x22, CHR ''x'', CHR 0x22, CHR 0x22, CHR ''y'', CHR 0x22] '','') = [(1, 4)]
   \<and> range_string (buf_m (split (default_setup\<lparr>quote := CHR 0x22, trim_left := '' '', trim_right := '' ''\<rparr>) new_splitter 0
        [CHR 0x22, CHR ''x'', CHR 0x22, CHR 0x22, CHR ''y'', CHR 0x22] '','')) 1 4 = [CHR ''x'', CHR 0x22, CHR ''y'']
   \<and> splitter_valid (default_setup\<lparr>quote := CHR 0x22, trim_left := '' '', trim_right := '' ''\<rparr>)
        (split (default_setup\<lparr>quote := CHR 0x22, trim_left := '' '', trim_right := '' ''\<rparr>) new_splitter 0
          [CHR 0x22, CHR ''x'', CHR 0x22, CHR 0x22, CHR ''y'', CHR 0x22] '','')"
proof -
  let ?cfg = "default_setup\<lparr>quote := CHR 0x22, trim_left := '' '', trim_right := '' ''\<rparr>"
  have q: "quote ?cfg = CHR 0x22" by (simp add: default_setup_def)
  have ok: "setup_ok ?cfg"
    by (simp add: setup_ok_def default_setup_def matches_intersect_def quote_enabled_def
        escape_enabled_def)
  have ex: "CHR ''x'' \<notin> set (escape ?cfg)" and ey: "CHR ''y'' \<notin> set (escape ?cfg)"
    by (simp_all add: default_setup_def)
  have d: "'','' \<noteq> []" and dq: "hd '','' \<noteq> CHR 0x22" by simp_all
  have nr: "\<not> resplitting_m new_splitter" by (simp add: new_splitter_def)
  from q ok doubled_quote_field [OF q ok ex ey d dq nr] show ?thesis by blast
qed

section \<open>Properties of the splitter: rows of cells\<close>

lemma peek_append_mid: "peek (pre @ c # rest) (length pre) = c"
  by (simp add: peek_def)

lemma peek_in_token:
  "length pre \<le> p \<Longrightarrow> p < length pre + length t \<Longrightarrow>
   peek (pre @ t @ rest) p = t ! (p - length pre) \<and> peek (pre @ t @ rest) p \<in> set t"
  by (auto simp: peek_def nth_append)

lemma trim_loop_token:
  assumes "t \<noteq> []" and "\<not> match m (last t)"
    and "length pre \<le> p" and "p < length pre + length t"
  shows "p \<le> trim_loop m (pre @ t @ rest) p \<and>
         trim_loop m (pre @ t @ rest) p < length pre + length t"
  using assms(3,4)
proof (induction "length pre + length t - p" arbitrary: p rule: less_induct)
  case less
  let ?mem = "pre @ t @ rest"
  show ?case
  proof (cases "p < length ?mem \<and> match m (peek ?mem p)")
    case False
    then have "trim_loop m ?mem p = p" by (rule trim_loop_stop)
    with less.prems show ?thesis by simp
  next
    case True
    then have tl: "trim_loop m ?mem p = trim_loop m ?mem (Suc p)"
      by (subst trim_loop.simps) simp
    have "Suc p < length pre + length t"
    proof (rule ccontr)
      assume "\<not> Suc p < length pre + length t"
      with less.prems have "p = length pre + length t - 1" by simp
      with less.prems assms(1) have "peek ?mem p = last t"
        using peek_in_token [of pre p t rest] by (simp add: last_conv_nth)
      with True assms(2) show False by simp
    qed
    moreover from this less.prems have "length pre + length t - Suc p < length pre + length t - p"
      by simp
    ultimately have "Suc p \<le> trim_loop m ?mem (Suc p) \<and>
        trim_loop m ?mem (Suc p) < length pre + length t"
      using less.hyps [of "Suc p"] less.prems by simp
    with tl show ?thesis by simp
  qed
qed

lemma no_match_delim:
  "delim \<noteq> [] \<Longrightarrow> peek mem p \<notin> set delim \<Longrightarrow> \<not> match_delim mem p delim"
  by (cases delim) (auto simp: match_delim_def)

lemma strncmp_eq_at:
  "CHR 0x00 \<notin> set delim \<Longrightarrow> strncmp_eq (pre @ delim @ rest) (length pre) delim"
proof (induction delim arbitrary: pre)
  case Nil
  then show ?case by simp
next
  case (Cons d ds)
  have "strncmp_eq ((pre @ [d]) @ ds @ rest) (length (pre @ [d])) ds"
    using Cons.prems by (intro Cons.IH) simp
  then show ?case by (simp add: peek_def)
qed

lemma match_delim_at:
  assumes "CHR 0x00 \<notin> set delim" and "delim \<noteq> []"
  shows "match_delim (pre @ delim @ rest) (length pre) delim"
proof (cases "length delim = 1")
  case True
  then obtain d where "delim = [d]" by (cases delim) auto
  then show ?thesis by (simp add: match_delim_def peek_def)
next
  case False
  with strncmp_eq_at [OF assms(1), of pre rest] show ?thesis
    by (simp add: match_delim_def)
qed

lemma peek_at_append: "u \<noteq> [] \<Longrightarrow> peek (pre @ u) (length pre) = hd u"
  by (cases u) (simp_all add: peek_def)

lemma trim_right_token:
  assumes "t \<noteq> []" and "\<not> match (trim_right cfg) (last t)"
    and "length pre \<le> p" and "p < length pre + length t"
  shows "p \<le> trim_right_if_enabled cfg (pre @ t @ rest) p \<and>
         trim_right_if_enabled cfg (pre @ t @ rest) p < length pre + length t"
  using trim_loop_token [OF assms] assms(3,4) by (simp add: trim_right_if_enabled_def)

lemma read_normal_token:
  assumes tok: "plain_token cfg delim t" and dl: "plain_delimiter cfg delim"
    and rest: "rest = [] \<or> (\<exists>u. rest = delim @ u \<and> (u = [] \<or> \<not> match (trim_left cfg) (hd u)))"
  shows "buf_m sp = pre @ t @ rest \<Longrightarrow> end_m sp = length pre + j \<Longrightarrow> j \<le> length t \<Longrightarrow>
    escaped_m sp = 0 \<Longrightarrow>
    field_read sp (begin_m sp) (length pre + length t) (rest = [])
      (length pre + length t + length delim) (read_normal cfg delim sp)"
proof (induction "length t - j" arbitrary: sp j rule: less_induct)
  case less
  let ?mem = "pre @ t @ rest"
  let ?p = "length pre + j"
  note mem = \<open>buf_m sp = ?mem\<close> and e = \<open>end_m sp = ?p\<close>
  show ?case
  proof (cases "j < length t")
    case True
    then have tne: "t \<noteq> []" by auto
    with tok have nl: "\<not> match (trim_right cfg) (last t)" by (simp add: plain_token_def)
    define e' where "e' = trim_right_if_enabled cfg ?mem ?p"
    from trim_right_token [OF tne nl, of pre ?p rest] True
    have eb: "?p \<le> e'" "e' < length pre + length t" by (simp_all add: e'_def)
    then have c: "peek ?mem e' \<in> set t" using peek_in_token [of pre e' t rest] by simp
    with tok have cn: "peek ?mem e' \<noteq> CHR 0x00" "\<not> match (escape cfg) (peek ?mem e')"
      "peek ?mem e' \<notin> set delim"
      by (auto simp: plain_token_def)
    from dl cn(3) have nmd: "\<not> match_delim ?mem e' delim"
      by (intro no_match_delim) (simp_all add: plain_delimiter_def)
    have md: "match_delimiter cfg sp ?p delim = (1 + e' - ?p, False, sp)"
      using cn nmd by (simp add: match_delimiter_def Let_def mem e'_def [symmetric]
          shift_if_escaped_def)
    from eb have w: "1 + e' - ?p \<noteq> 0" by simp
    have rn: "read_normal cfg delim sp = read_normal cfg delim (sp\<lparr>end_m := e' + 1\<rparr>)"
      using w eb by (subst read_normal.simps) (simp add: md e)
    have "field_read (sp\<lparr>end_m := e' + 1\<rparr>) (begin_m (sp\<lparr>end_m := e' + 1\<rparr>))
        (length pre + length t) (rest = [])
        (length pre + length t + length delim) (read_normal cfg delim (sp\<lparr>end_m := e' + 1\<rparr>))"
      using eb less.prems
      by (intro less.hyps [of "e' + 1 - length pre"]) simp_all
    then show ?thesis by (simp add: rn field_read_def)
  next
    case False
    with less.prems have jt: "j = length t" by simp
    show ?thesis
    proof (cases "rest = []")
      case True
      have "peek (buf_m sp) (trim_right_if_enabled cfg (buf_m sp) ?p) = CHR 0x00"
        using True jt by (simp add: mem trim_right_if_enabled_def trim_loop_stop peek_def)
      then have md: "match_delimiter cfg sp ?p delim = (0, False, sp)"
        by (rule match_delimiter_eol)
      have rn: "read_normal cfg delim sp = (shift_and_push cfg sp)\<lparr>done_m := True\<rparr>"
        by (subst read_normal.simps) (simp add: md e)
      show ?thesis
        using True jt less.prems
        by (simp add: rn field_read_def shift_and_push_def shift_and_set_current_def Let_def)
    next
      case ne: False
      with rest obtain u where u: "rest = delim @ u" "u = [] \<or> \<not> match (trim_left cfg) (hd u)"
        by auto
      from dl have dne: "delim \<noteq> []" and d0: "CHR 0x00 \<notin> set delim"
        and dh: "\<not> match (trim_right cfg) (hd delim)" "hd delim \<noteq> CHR 0x00"
        by (auto simp: plain_delimiter_def)
      have pk: "peek ?mem (length pre + length t) = hd delim"
        using dne u(1) peek_at_append [of "delim @ u" "pre @ t"] by simp
      have tr: "trim_right_if_enabled cfg ?mem (length pre + length t) = length pre + length t"
        using dh pk by (simp add: trim_right_if_enabled_def trim_loop_stop)
      have mdl: "match_delim ?mem (length pre + length t) delim"
        using match_delim_at [OF d0 dne, of "pre @ t" u] u(1) by simp
      have tlq: "trim_left_if_enabled cfg ?mem (length pre + length t + length delim) =
          length pre + length t + length delim"
      proof (cases "u = []")
        case True
        then show ?thesis using u(1)
          by (simp add: trim_left_if_enabled_def trim_loop_stop)
      next
        case False
        with u(2) have "\<not> match (trim_left cfg) (hd u)" by simp
        moreover have "peek ?mem (length pre + length t + length delim) = hd u"
          using False u(1) peek_at_append [of u "pre @ t @ delim"] by (simp add: add.assoc)
        ultimately show ?thesis by (simp add: trim_left_if_enabled_def trim_loop_stop)
      qed
      have md: "match_delimiter cfg sp ?p delim = (length delim, True, sp)"
        using pk dh mdl tlq tr
        by (simp add: match_delimiter_def Let_def mem jt delimiter_size_def)
      have rn: "read_normal cfg delim sp = shift_push_and_start_next cfg (length delim) sp"
        by (subst read_normal.simps) (simp add: md e)
      show ?thesis
        using ne jt less.prems
        by (simp add: rn field_read_def shift_push_and_start_next_def shift_and_push_def
            shift_and_set_current_def Let_def)
    qed
  qed
qed

lemma read_quoted_content:
  assumes qe: "quote_enabled cfg"
    and ok: "\<forall>c \<in> set t. c \<noteq> CHR 0x00 \<and> \<not> quote_match cfg c \<and> \<not> match (escape cfg) c"
  shows "buf_m sp = pre @ t @ rest \<Longrightarrow> end_m sp = length pre + j \<Longrightarrow> j \<le> length t \<Longrightarrow>
    read_quoted cfg delim sp = read_quoted cfg delim (sp\<lparr>end_m := length pre + length t\<rparr>)"
proof (induction "length t - j" arbitrary: sp j rule: less_induct)
  case less
  show ?case
  proof (cases "j < length t")
    case False
    with less.prems have "sp\<lparr>end_m := length pre + length t\<rparr> = sp" by simp
    then show ?thesis by simp
  next
    case True
    then have c: "peek (buf_m sp) (end_m sp) \<in> set t"
      using peek_in_token [of pre "length pre + j" t rest] less.prems by simp
    with ok have "read_quoted cfg delim sp = read_quoted cfg delim (sp\<lparr>end_m := end_m sp + 1\<rparr>)"
      by (intro read_quoted_plain [OF qe]) auto
    also have "\<dots> = read_quoted cfg delim
        (sp\<lparr>end_m := end_m sp + 1\<rparr>\<lparr>end_m := length pre + length t\<rparr>)"
      by (rule less.hyps [of "j + 1"]) (use True less.prems in simp_all)
    finally show ?thesis by simp
  qed
qed

lemma read_quoted_cell:
  assumes qe: "quote_enabled cfg" and dl: "plain_delimiter cfg delim"
    and ok: "\<forall>c \<in> set t. c \<noteq> CHR 0x00 \<and> \<not> quote_match cfg c \<and> \<not> match (escape cfg) c"
    and rest: "rest = [] \<or> (\<exists>u. rest = delim @ u \<and> (u = [] \<or> \<not> match (trim_left cfg) (hd u)))"
    and mem: "buf_m sp = pre @ t @ quote cfg # rest" and e: "end_m sp = length pre"
    and esc: "escaped_m sp = 0"
  shows "field_read sp (begin_m sp) (length pre + length t) (rest = [])
      (length pre + length t + 1 + length delim) (read_quoted cfg delim sp)"
proof -
  let ?mem = "pre @ t @ quote cfg # rest"
  let ?q = "length pre + length t"
  let ?s = "sp\<lparr>end_m := ?q\<rparr>"
  have r1: "read_quoted cfg delim sp = read_quoted cfg delim ?s"
    by (rule read_quoted_content [OF qe ok, where rest = "quote cfg # rest" and j = 0])
      (simp_all add: mem e)
  have pq: "peek ?mem ?q = quote cfg"
    using peek_at_append [of "quote cfg # rest" "pre @ t"] by simp
  have qm: "quote_match cfg (peek (buf_m ?s) (end_m ?s))"
    by (simp add: mem pq quote_match_def)
  show ?thesis
  proof (cases "rest = []")
    case True
    have "peek (buf_m ?s) (trim_right_if_enabled cfg (buf_m ?s) (end_m ?s + 1)) = CHR 0x00"
      using True by (simp add: mem trim_right_if_enabled_def trim_loop_stop peek_def)
    moreover have "\<not> quote_match cfg (peek (buf_m ?s) (end_m ?s + 1))"
      using True qe by (simp add: mem peek_def quote_match_def quote_enabled_def)
    ultimately have "read_quoted cfg delim ?s = (shift_and_push cfg ?s)\<lparr>done_m := True\<rparr>"
      using qm by (intro read_quoted_closing_eol [OF qe])
    with True esc show ?thesis
      by (simp add: r1 field_read_def shift_and_push_def shift_and_set_current_def Let_def)
  next
    case ne: False
    with rest obtain u where u: "rest = delim @ u" "u = [] \<or> \<not> match (trim_left cfg) (hd u)"
      by auto
    from dl have dne: "delim \<noteq> []" and d0: "CHR 0x00 \<notin> set delim"
      and dh: "\<not> match (trim_right cfg) (hd delim)" "hd delim \<noteq> CHR 0x00"
      by (auto simp: plain_delimiter_def)
    have pk: "peek ?mem (?q + 1) = hd delim"
      using dne u(1) peek_at_append [of "delim @ u" "pre @ t @ [quote cfg]"] by simp
    have tr: "trim_right_if_enabled cfg ?mem (?q + 1) = ?q + 1"
      using dh pk by (simp add: trim_right_if_enabled_def trim_loop_stop)
    have mdl: "match_delim ?mem (?q + 1) delim"
      using match_delim_at [OF d0 dne, of "pre @ t @ [quote cfg]" u] u(1) by simp
    have tlq: "trim_left_if_enabled cfg ?mem (?q + 1 + length delim) = ?q + 1 + length delim"
    proof (cases "u = []")
      case True
      then show ?thesis using u(1)
        by (simp add: trim_left_if_enabled_def trim_loop_stop)
    next
      case False
      with u(2) have "\<not> match (trim_left cfg) (hd u)" by simp
      moreover have "peek ?mem (?q + 1 + length delim) = hd u"
        using False u(1) peek_at_append [of u "pre @ t @ [quote cfg] @ delim"]
        by (simp add: add.assoc)
      ultimately show ?thesis by (simp add: trim_left_if_enabled_def trim_loop_stop)
    qed
    have md: "match_delimiter cfg ?s (Suc ?q) delim = (length delim, True, ?s)"
      using pk dh mdl tlq tr
      by (simp add: match_delimiter_def Let_def mem delimiter_size_def)
    have "read_quoted cfg delim ?s = shift_push_and_start_next cfg (length delim + 1) ?s"
      using qm qe by (subst read_quoted.simps) (simp add: md)
    with ne esc show ?thesis
      by (simp add: r1 field_read_def shift_push_and_start_next_def shift_and_push_def
          shift_and_set_current_def Let_def)
  qed
qed

lemma join_Cons: "ts \<noteq> [] \<Longrightarrow> join d (t # ts) = t @ d @ join d ts"
  by (cases ts) simp_all

lemma first_char_row:
  assumes "\<forall>c \<in> set cs. cell_ok cfg delim c" and "plain_delimiter cfg delim"
    and "setup_ok cfg" and "row_text cfg delim cs \<noteq> []"
  shows "\<not> match (trim_left cfg) (hd (row_text cfg delim cs))"
proof (cases cs)
  case Nil
  with assms(4) show ?thesis by (simp add: row_text_def)
next
  case (Cons c us)
  show ?thesis
  proof (cases "cell_text cfg c = []")
    case False
    then have h: "hd (row_text cfg delim cs) = hd (cell_text cfg c)"
      using Cons by (cases us) (simp_all add: row_text_def)
    show ?thesis
    proof (cases c)
      case (Unquoted t)
      with False assms(1) Cons have "\<not> match (trim_left cfg) (hd t)"
        by (auto simp: plain_token_def)
      with h Unquoted show ?thesis by simp
    next
      case (Quoted t)
      with assms(1) Cons have "quote_enabled cfg" by simp
      with assms(3) have "\<not> match (trim_left cfg) (quote cfg)"
        using setup_ok_quote(1) by (simp add: match_def)
      with h Quoted show ?thesis by simp
    qed
  next
    case True
    with assms(4) Cons have "us \<noteq> []" by (cases us) (auto simp: row_text_def)
    with True Cons assms(2) have "hd (row_text cfg delim cs) = hd delim"
      by (simp add: row_text_def join_Cons plain_delimiter_def)
    with assms(2) show ?thesis by (auto simp: plain_delimiter_def)
  qed
qed

lemma read_plain_field:
  assumes dl: "plain_delimiter cfg delim" and tok: "plain_token cfg delim t"
    and rest: "rest = [] \<or> (\<exists>u. rest = delim @ u \<and> (u = [] \<or> \<not> match (trim_left cfg) (hd u)))"
    and mem: "buf_m sp = pre @ t @ rest" and b: "begin_m sp = length pre"
    and nr: "\<not> (quote_enabled cfg \<and> multiline_enabled cfg \<and> resplitting_m sp)"
  shows "field_read sp (length pre) (length pre + length t) (rest = [])
      (length pre + length t + length delim) (read cfg delim sp)"
proof -
  let ?s = "sp\<lparr>escaped_m := 0, curr_m := begin_m sp, end_m := begin_m sp\<rparr>"
  have nq: "quote_enabled cfg \<longrightarrow> \<not> quote_match cfg (peek (buf_m sp) (begin_m sp))"
  proof (cases "t @ rest = []")
    case True
    then show ?thesis by (simp add: mem b peek_def quote_enabled_def quote_match_def)
  next
    case False
    then have pk: "peek (buf_m sp) (begin_m sp) = hd (t @ rest)"
      using peek_at_append [of "t @ rest" pre] by (simp add: mem b)
    show ?thesis
    proof (cases "t = []")
      case tn: False
      with tok have "\<not> quote_match cfg (hd t)" by (auto simp: plain_token_def)
      with tn pk show ?thesis by simp
    next
      case True
      with False rest obtain u where "rest = delim @ u" by auto
      with True pk dl have "peek (buf_m sp) (begin_m sp) = hd delim"
        by (simp add: plain_delimiter_def)
      with dl show ?thesis by (auto simp: plain_delimiter_def)
    qed
  qed
  with nr have r: "read cfg delim sp = read_normal cfg delim ?s"
    by (auto simp: read_def Let_def)
  have "field_read ?s (begin_m ?s) (length pre + length t) (rest = [])
      (length pre + length t + length delim) (read_normal cfg delim ?s)"
    by (rule read_normal_token [OF tok dl rest, where pre = pre and j = 0])
      (simp_all add: mem b)
  then show ?thesis by (simp add: r field_read_def b)
qed

lemma read_quoted_field:
  assumes dl: "plain_delimiter cfg delim" and qe: "quote_enabled cfg"
    and ok: "\<forall>c \<in> set t. c \<noteq> CHR 0x00 \<and> \<not> quote_match cfg c \<and> \<not> match (escape cfg) c"
    and rest: "rest = [] \<or> (\<exists>u. rest = delim @ u \<and> (u = [] \<or> \<not> match (trim_left cfg) (hd u)))"
    and mem: "buf_m sp = pre @ (quote cfg # t @ [quote cfg]) @ rest" and b: "begin_m sp = length pre"
    and nr: "\<not> (quote_enabled cfg \<and> multiline_enabled cfg \<and> resplitting_m sp)"
  shows "field_read sp (length pre + 1) (length pre + 1 + length t) (rest = [])
      (length pre + length (quote cfg # t @ [quote cfg]) + length delim) (read cfg delim sp)"
proof -
  let ?s = "sp\<lparr>escaped_m := 0, begin_m := begin_m sp + 1, curr_m := begin_m sp + 1,
    end_m := begin_m sp + 1\<rparr>"
  have "peek (buf_m sp) (begin_m sp) = quote cfg"
    using peek_at_append [of "(quote cfg # t @ [quote cfg]) @ rest" pre] by (simp add: mem b)
  with nr qe have r: "read cfg delim sp = read_quoted cfg delim ?s"
    by (auto simp: read_def Let_def quote_match_def)
  have "field_read ?s (begin_m ?s) (length (pre @ [quote cfg]) + length t) (rest = [])
      (length (pre @ [quote cfg]) + length t + 1 + length delim) (read_quoted cfg delim ?s)"
    by (rule read_quoted_cell [OF qe dl ok rest]) (simp_all add: mem b)
  then show ?thesis by (simp add: r field_read_def b)
qed

lemma read_cell:
  assumes dl: "plain_delimiter cfg delim" and c: "cell_ok cfg delim c"
    and rest: "rest = [] \<or> (\<exists>u. rest = delim @ u \<and> (u = [] \<or> \<not> match (trim_left cfg) (hd u)))"
    and mem: "buf_m sp = pre @ cell_text cfg c @ rest" and b: "begin_m sp = length pre"
    and nr: "\<not> (quote_enabled cfg \<and> multiline_enabled cfg \<and> resplitting_m sp)"
  shows "field_read sp (fst (cell_range (length pre) c)) (snd (cell_range (length pre) c))
      (rest = []) (length pre + length (cell_text cfg c) + length delim) (read cfg delim sp)"
proof (cases c)
  case (Unquoted t)
  with read_plain_field [OF dl _ rest _ b nr, of t] c mem show ?thesis by simp
next
  case (Quoted t)
  with read_quoted_field [OF dl _ _ rest _ b nr, of t] c mem show ?thesis by simp
qed

lemma split_loop_cells:
  assumes dl: "plain_delimiter cfg delim" and ok: "setup_ok cfg"
  shows "cs \<noteq> [] \<Longrightarrow> \<forall>c \<in> set cs. cell_ok cfg delim c \<Longrightarrow>
    buf_m sp = pre @ row_text cfg delim cs \<Longrightarrow> begin_m sp = length pre \<Longrightarrow> \<not> done_m sp \<Longrightarrow>
    \<not> (quote_enabled cfg \<and> multiline_enabled cfg \<and> resplitting_m sp) \<Longrightarrow>
    buf_m (split_loop cfg delim sp) = buf_m sp \<and>
    split_data_m (split_loop cfg delim sp) =
      split_data_m sp @ cell_ranges cfg (length pre) (length delim) cs \<and>
    error_m (split_loop cfg delim sp) = error_m sp \<and>
    unterminated_quote_m (split_loop cfg delim sp) = unterminated_quote_m sp"
proof (induction cs arbitrary: pre sp rule: induct_list012)
  case 1
  then show ?case by simp
next
  case (2 c)
  from dl have dne: "delim \<noteq> []" by (simp add: plain_delimiter_def)
  have fr: "field_read sp (fst (cell_range (length pre) c)) (snd (cell_range (length pre) c))
      (([] :: string) = []) (length pre + length (cell_text cfg c) + length delim)
      (read cfg delim sp)"
    by (rule read_cell [OF dl, where rest = "[]" and pre = pre])
      (use 2 in \<open>simp_all add: row_text_def\<close>)
  then have dn: "done_m (read cfg delim sp)" by (simp add: field_read_def)
  have "split_loop cfg delim sp = read cfg delim sp"
    using 2 dne dn by (subst split_loop.simps, subst split_loop.simps) simp
  with fr "2.prems" show ?case by (simp add: field_read_def)
next
  case (3 c d cs)
  from dl have dne: "delim \<noteq> []" by (simp add: plain_delimiter_def)
  let ?u = "row_text cfg delim (d # cs)"
  let ?rest = "delim @ ?u"
  have fc: "?u = [] \<or> \<not> match (trim_left cfg) (hd ?u)"
    using first_char_row [of "d # cs" cfg delim] "3.prems"(2) dl ok by auto
  have fr: "field_read sp (fst (cell_range (length pre) c)) (snd (cell_range (length pre) c))
      (?rest = []) (length pre + length (cell_text cfg c) + length delim) (read cfg delim sp)"
    by (rule read_cell [OF dl, where pre = pre])
      (use "3.prems" fc in \<open>auto simp: row_text_def\<close>)
  let ?r = "read cfg delim sp"
  from fr dne "3.prems" have r: "buf_m ?r = (pre @ cell_text cfg c @ delim) @ ?u"
    "begin_m ?r = length (pre @ cell_text cfg c @ delim)" "\<not> done_m ?r"
    "\<not> (quote_enabled cfg \<and> multiline_enabled cfg \<and> resplitting_m ?r)"
    "split_data_m ?r = split_data_m sp @ [cell_range (length pre) c]"
    "error_m ?r = error_m sp" "unterminated_quote_m ?r = unterminated_quote_m sp"
    "buf_m ?r = buf_m sp"
    by (simp_all add: field_read_def row_text_def)
  have sl: "split_loop cfg delim sp = split_loop cfg delim ?r"
    using "3.prems" dne by (subst split_loop.simps) simp
  have "buf_m (split_loop cfg delim ?r) = buf_m ?r \<and>
      split_data_m (split_loop cfg delim ?r) =
        split_data_m ?r @
          cell_ranges cfg (length (pre @ cell_text cfg c @ delim)) (length delim) (d # cs) \<and>
      error_m (split_loop cfg delim ?r) = error_m ?r \<and>
      unterminated_quote_m (split_loop cfg delim ?r) = unterminated_quote_m ?r"
    by (rule "3.IH"(2)) (use "3.prems"(2) r(1-4) in simp_all)
  with r(5-8) show ?case by (simp add: sl add.assoc)
qed

lemma cell_ranges_fields:
  "map (\<lambda>(begin, end). range_string (pre @ row_text cfg d cs) begin end)
     (cell_ranges cfg (length pre) (length d) cs) = map cell_value cs"
proof (induction cs arbitrary: pre rule: induct_list012)
  case 1
  then show ?case by simp
next
  case (2 c)
  then show ?case by (cases c) (simp_all add: range_string_def row_text_def)
next
  case (3 c e cs)
  have "map (\<lambda>(begin, end). range_string ((pre @ cell_text cfg c @ d) @ row_text cfg d (e # cs)) begin end)
      (cell_ranges cfg (length (pre @ cell_text cfg c @ d)) (length d) (e # cs)) =
      map cell_value (e # cs)"
    by (rule "3.IH"(2))
  then show ?case by (cases c) (simp_all add: range_string_def row_text_def add.assoc)
qed

lemma split_row:
  assumes dl: "plain_delimiter cfg delim" and ok: "setup_ok cfg" and ne: "cs \<noteq> []"
    and cells: "\<forall>c \<in> set cs. cell_ok cfg delim c" and nr: "\<not> resplitting_m sp"
  shows "buf_m (split cfg sp 0 (row_text cfg delim cs) delim) = row_text cfg delim cs"
    and "split_data_m (split cfg sp 0 (row_text cfg delim cs) delim) =
      cell_ranges cfg 0 (length delim) cs"
    and "splitter_valid cfg (split cfg sp 0 (row_text cfg delim cs) delim)"
    and "\<not> unterminated_quote_m (split cfg sp 0 (row_text cfg delim cs) delim)"
    and "fields (split cfg sp 0 (row_text cfg delim cs) delim) = map cell_value cs"
proof -
  let ?line = "row_text cfg delim cs"
  from dl have dne: "delim \<noteq> []" by (simp add: plain_delimiter_def)
  let ?s1 = "splitter_clear_error cfg
    (sp\<lparr>split_data_m := [], line_m := 0, begin_m := 0, buf_m := ?line\<rparr>)"
  let ?s = "?s1\<lparr>begin_m := 0, done_m := False\<rparr>"
  have tl: "trim_left_if_enabled cfg ?line 0 = 0"
  proof (cases "?line = []")
    case True
    then show ?thesis by (simp add: trim_left_if_enabled_def trim_loop_stop)
  next
    case False
    with first_char_row [OF cells dl ok] have "\<not> match (trim_left cfg) (hd ?line)" by simp
    moreover have "peek ?line 0 = hd ?line"
      using False peek_at_append [of ?line "[]"] by simp
    ultimately show ?thesis by (simp add: trim_left_if_enabled_def trim_loop_stop)
  qed
  have sp: "split cfg sp 0 ?line delim = split_loop cfg delim ?s"
    using dne tl
    by (simp add: split_def split_impl_select_delim_def split_impl_def Let_def
        splitter_clear_error_def)
  have "buf_m (split_loop cfg delim ?s) = buf_m ?s \<and>
      split_data_m (split_loop cfg delim ?s) =
        split_data_m ?s @ cell_ranges cfg (length ([] :: string)) (length delim) cs \<and>
      error_m (split_loop cfg delim ?s) = error_m ?s \<and>
      unterminated_quote_m (split_loop cfg delim ?s) = unterminated_quote_m ?s"
    by (rule split_loop_cells [OF dl ok ne cells])
      (use nr in \<open>simp_all add: splitter_clear_error_def\<close>)
  then have r: "buf_m (split cfg sp 0 ?line delim) = ?line"
    "split_data_m (split cfg sp 0 ?line delim) = cell_ranges cfg 0 (length delim) cs"
    "error_m (split cfg sp 0 ?line delim) = clear cfg (error_m sp)"
    "\<not> unterminated_quote_m (split cfg sp 0 ?line delim)"
    by (simp_all add: sp splitter_clear_error_def)
  from r show "buf_m (split cfg sp 0 ?line delim) = ?line"
    and "split_data_m (split cfg sp 0 ?line delim) = cell_ranges cfg 0 (length delim) cs"
    and "\<not> unterminated_quote_m (split cfg sp 0 ?line delim)"
    by simp_all
  show "splitter_valid cfg (split cfg sp 0 ?line delim)"
    unfolding splitter_valid_def r(3) by (simp add: clear_def)
  show "fields (split cfg sp 0 ?line delim) = map cell_value cs"
    using cell_ranges_fields [of "[]" cfg delim cs] by (simp add: fields_def r)
qed


lemma row_text_Unquoted: "row_text cfg delim (map Unquoted ts) = join delim ts"
  by (simp add: row_text_def comp_def)

lemma set_join: "set (join d ts) \<subseteq> set d \<union> (\<Union>t \<in> set ts. set t)"
  by (induction d ts rule: join.induct) auto

lemma join_no_nul:
  assumes dl: "plain_delimiter cfg delim" and toks: "\<forall>t \<in> set ts. plain_token cfg delim t"
  shows "CHR 0x00 \<notin> set (join delim ts)"
proof
  assume "CHR 0x00 \<in> set (join delim ts)"
  with set_join [of delim ts]
  consider "CHR 0x00 \<in> set delim" | t where "t \<in> set ts" and "CHR 0x00 \<in> set t"
    by auto
  then show False
  proof cases
    case 1
    with dl show False unfolding plain_delimiter_def by blast
  next
    case 2
    from toks 2(1) have "plain_token cfg delim t" by blast
    with 2(2) show False unfolding plain_token_def by blast
  qed
qed

lemma converter_split_nonempty:
  assumes "line \<noteq> []" and "CHR 0x00 \<notin> set line"
  shows "splitter_m (converter_split cfg cv 0 line delim) =
    split cfg ((splitter_m cv)\<lparr>split_data_m := []\<rparr>) 0 line delim"
proof -
  from assms have "peek line 0 \<noteq> CHR 0x00" by (cases line) (auto simp: peek_def)
  then show ?thesis by (simp add: converter_split_def Let_def)
qed

section \<open>Properties of the splitter: joining the fields\<close>

text \<open>
  C4. For every setup that compiles, every delimiter with no terminator, quote or trimmed
  byte, and every row of tokens with no terminator, quote, escape or delimiter byte and no
  trimmed byte at either end: the field strings of the split of the joined row are the
  tokens, joining them with the delimiter gives the line back byte for byte, the buffer is
  left as it was, and the split is valid. Joining the fields of \<^verbatim>\<open>converter::split\<close> gives
  the line back as well.
\<close>

theorem split_join_round_trip:
  assumes ok: "setup_ok cfg" and dl: "plain_delimiter cfg delim"
    and toks: "\<forall>t \<in> set ts. plain_token cfg delim t"
    and nr: "\<not> resplitting_m sp" and nrc: "\<not> resplitting_m (splitter_m cv)"
  shows "(ts \<noteq> [] \<longrightarrow> fields (split cfg sp 0 (join delim ts) delim) = ts)
     \<and> join delim (fields (split cfg sp 0 (join delim ts) delim)) = join delim ts
     \<and> buf_m (split cfg sp 0 (join delim ts) delim) = join delim ts
     \<and> splitter_valid cfg (split cfg sp 0 (join delim ts) delim)
     \<and> join delim (fields (splitter_m (converter_split cfg cv 0 (join delim ts) delim))) =
         join delim ts"
proof -
  have row: "fields (split cfg s 0 (join delim us) delim) = us \<and>
      buf_m (split cfg s 0 (join delim us) delim) = join delim us \<and>
      splitter_valid cfg (split cfg s 0 (join delim us) delim)"
    if "us \<noteq> []" and "\<forall>t \<in> set us. plain_token cfg delim t" and "\<not> resplitting_m s"
    for us s
  proof -
    have n: "map Unquoted us \<noteq> []" using that(1) by simp
    have c: "\<forall>c \<in> set (map Unquoted us). cell_ok cfg delim c" using that(2) by simp
    note r = split_row [OF dl ok n c that(3), unfolded row_text_Unquoted]
    have "fields (split cfg s 0 (join delim us) delim) = us"
      using r(5) by (simp add: comp_def)
    with r show ?thesis by simp
  qed
  have e: "plain_token cfg delim []" by (simp add: plain_token_def)
  have a: "fields (split cfg sp 0 (join delim ts) delim) = (if ts = [] then [[]] else ts) \<and>
      buf_m (split cfg sp 0 (join delim ts) delim) = join delim ts \<and>
      splitter_valid cfg (split cfg sp 0 (join delim ts) delim)"
  proof (cases "ts = []")
    case True
    from row [of "[[]]" sp] e nr show ?thesis by (simp add: True)
  next
    case False
    from row [OF False toks nr] False show ?thesis by simp
  qed
  have b: "join delim (fields (splitter_m (converter_split cfg cv 0 (join delim ts) delim))) =
      join delim ts"
  proof (cases "join delim ts = []")
    case True
    then show ?thesis by (simp add: converter_split_def Let_def peek_def fields_def)
  next
    case False
    then have ne: "ts \<noteq> []" by auto
    from nrc have nr': "\<not> resplitting_m ((splitter_m cv)\<lparr>split_data_m := []\<rparr>)" by simp
    from converter_split_nonempty [OF False join_no_nul [OF dl toks]] row [OF ne toks nr']
    show ?thesis by simp
  qed
  from a b show ?thesis by (cases "ts = []") simp_all
qed

theorem split_join_round_trip_witness:
  "setup_ok (default_setup\<lparr>trim_left := '' '', trim_right := '' ''\<rparr>)
   \<and> plain_delimiter (default_setup\<lparr>trim_left := '' '', trim_right := '' ''\<rparr>) '',''
   \<and> plain_token (default_setup\<lparr>trim_left := '' '', trim_right := '' ''\<rparr>) '','' ''a''
   \<and> plain_token (default_setup\<lparr>trim_left := '' '', trim_right := '' ''\<rparr>) '','' []
   \<and> plain_token (default_setup\<lparr>trim_left := '' '', trim_right := '' ''\<rparr>) '','' ''b c''
   \<and> join '','' [''a'', [], ''b c''] = ''a,,b c''
   \<and> fields (split (default_setup\<lparr>trim_left := '' '', trim_right := '' ''\<rparr>) new_splitter 0
        ''a,,b c'' '','') = [''a'', [], ''b c'']
   \<and> join '','' (fields (split (default_setup\<lparr>trim_left := '' '', trim_right := '' ''\<rparr>)
        new_splitter 0 ''a,,b c'' '','')) = ''a,,b c''"
proof -
  let ?cfg = "default_setup\<lparr>trim_left := '' '', trim_right := '' ''\<rparr>"
  have ok: "setup_ok ?cfg"
    by (simp add: setup_ok_def default_setup_def matches_intersect_def quote_enabled_def
        escape_enabled_def)
  have dl: "plain_delimiter ?cfg '',''"
    by (simp add: plain_delimiter_def default_setup_def quote_match_def quote_enabled_def
        match_def)
  have toks: "\<forall>t \<in> set [''a'', [], ''b c'']. plain_token ?cfg '','' t"
    by (simp add: plain_token_def default_setup_def quote_match_def quote_enabled_def match_def)
  have j: "join '','' [''a'', [], ''b c''] = ''a,,b c''" by simp
  have nr: "\<not> resplitting_m new_splitter"
    and nrc: "\<not> resplitting_m (splitter_m new_converter)"
    by (simp_all add: new_splitter_def new_converter_def)
  from split_join_round_trip [OF ok dl toks nr nrc, unfolded j] ok dl toks j
  show ?thesis by simp
qed

section \<open>Properties of the splitter: the number of fields\<close>










section \<open>Properties of the retrieval: a failed conversion\<close>








section \<open>Properties of the line reader: the multiline limit\<close>





































end
